theory Spec2Isabelle
  imports Main "HOL-Library.Multiset" "HOL-Library.Char_ord" "HOL-Library.List_Lexorder"
begin

section \<open>Paths: the functions of \<open>path/filepath\<close> and \<open>strings\<close> that the copier calls\<close>

text \<open>
  The copier computes destination paths with \<open>filepath.Join\<close>, \<open>filepath.Dir\<close> and
  \<open>strings.Replace(path, from, "", 1)\<close>. They belong to Go's standard library; they are
  written here after their documentation, for the separator \<open>/\<close>.
\<close>

text \<open>\<open>strings.Split(s, "/")\<close>.\<close>

fun split_sep :: "string \<Rightarrow> string list" where
  "split_sep [] = [[]]"
| "split_sep (c # cs) =
     (if c = CHR ''/'' then [] # split_sep cs
      else (case split_sep cs of [] \<Rightarrow> [[c]] | x # xs \<Rightarrow> (c # x) # xs))"

text \<open>\<open>strings.Join(elems, "/")\<close>.\<close>

fun join_sep :: "string list \<Rightarrow> string" where
  "join_sep [] = []"
| "join_sep [e] = e"
| "join_sep (e # es) = e @ ''/'' @ join_sep es"

text \<open>
  The element pass of \<open>filepath.Clean\<close>: empty elements and \<open>.\<close> are dropped, an inner
  \<open>..\<close> removes the element before it, a \<open>..\<close> at the start of a rooted path is dropped
  and one at the start of a relative path is kept. \<open>out\<close> is the result so far, last
  element first.
\<close>

fun clean_elems :: "bool \<Rightarrow> string list \<Rightarrow> string list \<Rightarrow> string list" where
  "clean_elems rooted out [] = rev out"
| "clean_elems rooted out (e # es) =
     (if e = [] \<or> e = ''.'' then clean_elems rooted out es
      else if e = ''..'' then
        (case out of
           [] \<Rightarrow> if rooted then clean_elems rooted [] es else clean_elems rooted [''..''] es
         | x # xs \<Rightarrow>
             if x = ''..'' then clean_elems rooted (''..'' # out) es
             else clean_elems rooted xs es)
      else clean_elems rooted (e # out) es)"

definition filepath_Clean :: "string \<Rightarrow> string" where
  "filepath_Clean path =
     (let rooted = (take 1 path = ''/'');
          s = (if rooted then ''/'' else []) @ join_sep (clean_elems rooted [] (split_sep path))
      in if s = [] then ''.'' else s)"

text \<open>
  \<open>filepath.Join(a, b)\<close>: empty elements are ignored, the rest is joined with the
  separator and cleaned; all elements empty gives the empty string.
\<close>

definition filepath_Join :: "string \<Rightarrow> string \<Rightarrow> string" where
  "filepath_Join a b =
     (if a \<noteq> [] then filepath_Clean (a @ ''/'' @ b)
      else if b \<noteq> [] then filepath_Clean b
      else [])"

text \<open>\<open>filepath.Dir(path)\<close>: the path up to its last separator, cleaned.\<close>

definition filepath_Dir :: "string \<Rightarrow> string" where
  "filepath_Dir path = filepath_Clean (rev (dropWhile (\<lambda>c. c \<noteq> CHR ''/'') (rev path)))"

text \<open>\<open>filepath.Base\<close> of a cleaned path: its last element.\<close>

definition filepath_Base :: "string \<Rightarrow> string" where
  "filepath_Base path = rev (takeWhile (\<lambda>c. c \<noteq> CHR ''/'') (rev path))"

text \<open>
  \<open>strings.Replace(s, old, "", 1)\<close>: the first occurrence of \<open>old\<close> in \<open>s\<close> is removed;
  \<open>s\<close> is returned as it is when \<open>old\<close> does not occur (an empty \<open>old\<close> matches at the
  start and removes nothing).
\<close>

fun strings_Replace1 :: "string \<Rightarrow> string \<Rightarrow> string" where
  "strings_Replace1 [] old = []"
| "strings_Replace1 (c # cs) old =
     (if take (length old) (c # cs) = old then drop (length old) (c # cs)
      else c # strings_Replace1 cs old)"

section \<open>The filesystem port (\<open>afero.Fs\<close>)\<close>

text \<open>
  The copier reaches the filesystem only through \<open>afero.Fs\<close>: \<open>Stat\<close>, \<open>Open\<close>,
  \<open>MkdirAll\<close>, \<open>OpenFile\<close>, reading and writing an open file, and \<open>afero.Walk\<close>. The
  port is an external library; it is modelled as a store from cleaned paths to nodes,
  with the meaning the \<open>os\<close> package documents for each call and each open flag.
  A path of \<open>denied\<close> answers every call with a permission error (an injected fault).
  Every call is appended to \<open>oplog\<close>, so that "no call was made" can be stated.
  Symbolic links and the meaning of permission bits are not modelled.
\<close>

datatype fs_error = ErrNotExist | ErrPermission | ErrNotDir | ErrIsDir

text \<open>\<open>os.IsNotExist(err)\<close>; it is false for the nil error.\<close>

definition IsNotExist :: "fs_error option \<Rightarrow> bool" where
  "IsNotExist err = (err = Some ErrNotExist)"

datatype node = FileNode nat string | DirNode nat

datatype open_flag = O_CREATE | O_RDWR | O_TRUNC

datatype fs_op =
    OpStat string | OpLstat string | OpOpen string | OpFileStat string | OpMkdirAll string
  | OpOpenFile string | OpWrite string | OpReadDir string

record filesys =
  nodes :: "(string \<times> node) list"
  denied :: "string list"
  oplog :: "fs_op list"

record FileInfo =
  IsDir :: bool
  Mode :: nat

definition info_of :: "node \<Rightarrow> FileInfo" where
  "info_of n = (case n of FileNode m c \<Rightarrow> \<lparr>IsDir = False, Mode = m\<rparr>
                        | DirNode m \<Rightarrow> \<lparr>IsDir = True, Mode = m\<rparr>)"

definition logged :: "fs_op \<Rightarrow> filesys \<Rightarrow> filesys" where
  "logged ev fs = fs\<lparr>oplog := oplog fs @ [ev]\<rparr>"

text \<open>
  The node at a cleaned name, and the node a path names; \<open>.\<close> and \<open>/\<close> are directories
  that always exist.
\<close>

definition is_root :: "string \<Rightarrow> bool" where
  "is_root q = (q = ''.'' \<or> q = ''/'')"

definition node_at :: "filesys \<Rightarrow> string \<Rightarrow> node option" where
  "node_at fs q = (if is_root q then Some (DirNode 493) else map_of (nodes fs) q)"

definition lookup :: "filesys \<Rightarrow> string \<Rightarrow> node option" where
  "lookup fs p = node_at fs (filepath_Clean p)"

fun put_node :: "(string \<times> node) list \<Rightarrow> string \<Rightarrow> node \<Rightarrow> (string \<times> node) list" where
  "put_node [] q n = [(q, n)]"
| "put_node ((k, v) # ns) q n = (if k = q then (q, n) # ns else (k, v) # put_node ns q n)"

definition stat_result :: "filesys \<Rightarrow> string \<Rightarrow> fs_error + FileInfo" where
  "stat_result fs p =
     (if filepath_Clean p \<in> set (denied fs) then Inl ErrPermission
      else (case lookup fs p of None \<Rightarrow> Inl ErrNotExist | Some n \<Rightarrow> Inr (info_of n)))"

definition Stat :: "filesys \<Rightarrow> string \<Rightarrow> (fs_error + FileInfo) \<times> filesys" where
  "Stat fs p = (stat_result fs p, logged (OpStat p) fs)"

definition Lstat :: "filesys \<Rightarrow> string \<Rightarrow> (fs_error + FileInfo) \<times> filesys" where
  "Lstat fs p = (stat_result fs p, logged (OpLstat p) fs)"

text \<open>\<open>fs.Open(name)\<close>: open for reading. An open file is named by its cleaned path.\<close>

definition Open :: "filesys \<Rightarrow> string \<Rightarrow> (fs_error + string) \<times> filesys" where
  "Open fs p =
     (if filepath_Clean p \<in> set (denied fs) then (Inl ErrPermission, logged (OpOpen p) fs)
      else (case lookup fs p of
              None \<Rightarrow> (Inl ErrNotExist, logged (OpOpen p) fs)
            | Some n \<Rightarrow> (Inr (filepath_Clean p), logged (OpOpen p) fs)))"

text \<open>\<open>file.Stat()\<close> on an open file.\<close>

definition File_Stat :: "filesys \<Rightarrow> string \<Rightarrow> (fs_error + FileInfo) \<times> filesys" where
  "File_Stat fs h =
     (case node_at fs h of
        None \<Rightarrow> (Inl ErrNotExist, logged (OpFileStat h) fs)
      | Some n \<Rightarrow> (Inr (info_of n), logged (OpFileStat h) fs))"

text \<open>
  The directories \<open>MkdirAll\<close> walks through, outermost first: \<open>a\<close>, \<open>a/b\<close>, \<open>a/b/c\<close> for
  \<open>a/b/c\<close>; none for \<open>.\<close> and \<open>/\<close>.
\<close>

fun chain_from :: "string \<Rightarrow> string list \<Rightarrow> string list" where
  "chain_from pre [] = []"
| "chain_from pre (e # es) =
     (let q = (if pre = [] \<or> pre = ''/'' then pre @ e else pre @ ''/'' @ e)
      in q # chain_from q es)"

definition path_chain :: "string \<Rightarrow> string list" where
  "path_chain p =
     (let q = filepath_Clean p
      in if is_root q then []
         else if take 1 q = ''/'' then chain_from ''/'' (tl (split_sep q))
         else chain_from [] (split_sep q))"

text \<open>
  \<open>MkdirAll\<close> creates each missing directory of the chain with \<open>perm\<close>, leaves an
  existing directory alone and fails on a regular file in the way. What it created
  before a failure stays.
\<close>

fun mkdir_chain ::
  "(string \<times> node) list \<Rightarrow> string list \<Rightarrow> string list \<Rightarrow> nat \<Rightarrow> fs_error option \<times> (string \<times> node) list"
where
  "mkdir_chain ns dn [] perm = (None, ns)"
| "mkdir_chain ns dn (q # qs) perm =
     (if q \<in> set dn then (Some ErrPermission, ns)
      else (case map_of ns q of
              Some (DirNode m) \<Rightarrow> mkdir_chain ns dn qs perm
            | Some (FileNode m c) \<Rightarrow> (Some ErrNotDir, ns)
            | None \<Rightarrow> mkdir_chain (put_node ns q (DirNode perm)) dn qs perm))"

definition MkdirAll :: "filesys \<Rightarrow> string \<Rightarrow> nat \<Rightarrow> fs_error option \<times> filesys" where
  "MkdirAll fs p perm =
     (case mkdir_chain (nodes fs) (denied fs) (path_chain p) perm of
        (err, ns) \<Rightarrow> (err, logged (OpMkdirAll p) (fs\<lparr>nodes := ns\<rparr>)))"

text \<open>
  \<open>fs.OpenFile(name, flag, perm)\<close>. \<open>O_CREATE\<close> creates a missing file with \<open>perm\<close> and
  no content; an existing file keeps its mode, and keeps its content unless \<open>O_TRUNC\<close>
  is among the flags. A directory cannot be opened for writing.
\<close>

definition OpenFile ::
  "filesys \<Rightarrow> string \<Rightarrow> open_flag list \<Rightarrow> nat \<Rightarrow> (fs_error + string) \<times> filesys"
where
  "OpenFile fs p flags perm =
     (let q = filepath_Clean p; fs1 = logged (OpOpenFile p) fs
      in if q \<in> set (denied fs) then (Inl ErrPermission, fs1)
         else (case lookup fs p of
                 Some (DirNode m) \<Rightarrow>
                   if O_RDWR \<in> set flags then (Inl ErrIsDir, fs1) else (Inr q, fs1)
               | Some (FileNode m c) \<Rightarrow>
                   if O_TRUNC \<in> set flags
                   then (Inr q, fs1\<lparr>nodes := put_node (nodes fs) q (FileNode m [])\<rparr>)
                   else (Inr q, fs1)
               | None \<Rightarrow>
                   if O_CREATE \<in> set flags
                   then (case node_at fs (filepath_Dir q) of
                           Some (DirNode m) \<Rightarrow>
                             (Inr q, fs1\<lparr>nodes := put_node (nodes fs) q (FileNode perm [])\<rparr>)
                         | Some (FileNode m c) \<Rightarrow> (Inl ErrNotDir, fs1)
                         | None \<Rightarrow> (Inl ErrNotExist, fs1))
                   else (Inl ErrNotExist, fs1)))"

text \<open>
  \<open>io.Copy(dst, src)\<close> on two files just opened: all bytes of \<open>src\<close> are written to
  \<open>dst\<close> from offset 0. Bytes of \<open>dst\<close> beyond the written length stay. It returns the
  number of bytes written; reading a directory fails.
\<close>

definition io_Copy :: "filesys \<Rightarrow> string \<Rightarrow> string \<Rightarrow> (fs_error + nat) \<times> filesys" where
  "io_Copy fs dst src =
     (let fs1 = logged (OpWrite dst) fs
      in case node_at fs src of
           None \<Rightarrow> (Inl ErrNotExist, fs1)
         | Some (DirNode m) \<Rightarrow> (Inl ErrIsDir, fs1)
         | Some (FileNode m c) \<Rightarrow>
             (case node_at fs dst of
                Some (FileNode m' c') \<Rightarrow>
                  (Inr (length c),
                   fs1\<lparr>nodes := put_node (nodes fs) dst (FileNode m' (c @ drop (length c) c'))\<rparr>)
              | Some (DirNode m') \<Rightarrow> (Inl ErrIsDir, fs1)
              | None \<Rightarrow> (Inl ErrNotExist, fs1)))"

text \<open>
  The names in a directory, sorted (\<open>afero.Walk\<close> reads them so): the last element of
  every path of the store whose directory is \<open>p\<close>.
\<close>

definition readDirNames :: "filesys \<Rightarrow> string \<Rightarrow> (fs_error + string list) \<times> filesys" where
  "readDirNames fs p =
     (let q = filepath_Clean p; fs1 = logged (OpReadDir p) fs
      in if q \<in> set (denied fs) then (Inl ErrPermission, fs1)
         else (Inr (sort (map filepath_Base
                 (filter (\<lambda>k. k \<noteq> q \<and> filepath_Dir k = q) (map fst (nodes fs))))), fs1))"

section \<open>Errors\<close>

text \<open>
  \<open>Cause\<close> is an error of the filesystem, \<open>Wrap msg e\<close> is \<open>errors.Wrap(e, msg)\<close>,
  \<open>ErrClobberAvoided\<close> and \<open>Failures\<close> are the package's own error types.
\<close>

datatype error =
    Cause fs_error
  | Wrap string error
  | ErrClobberAvoided string
  | Failures "error list"

section \<open>\<open>copyFile\<close>\<close>

definition copyFile :: "filesys \<Rightarrow> string \<Rightarrow> string \<Rightarrow> error option \<times> filesys" where
  "copyFile fs from to =
     (case Open fs from of
        (Inl err, fs1) \<Rightarrow> (Some (Wrap (''opening '' @ from) (Cause err)), fs1)
      | (Inr fromFile, fs1) \<Rightarrow>
     (case File_Stat fs1 fromFile of
        (Inl err, fs2) \<Rightarrow> (Some (Wrap ''reading file metadata'' (Cause err)), fs2)
      | (Inr fromFi, fs2) \<Rightarrow>
     (case MkdirAll fs2 (filepath_Dir to) (Mode fromFi) of
        (Some err, fs3) \<Rightarrow>
          (Some (Wrap (''preparing directories for '' @ to) (Cause err)), fs3)
      | (None, fs3) \<Rightarrow>
     (case OpenFile fs3 to [O_CREATE, O_RDWR] (Mode fromFi) of
        (Inl err, fs4) \<Rightarrow> (Some (Wrap (''creating '' @ to) (Cause err)), fs4)
      | (Inr toFile, fs4) \<Rightarrow>
     (case io_Copy fs4 toFile fromFile of
        (Inl err, fs5) \<Rightarrow>
          (Some (Wrap (''copying file from '' @ from @ '' to '' @ to) (Cause err)), fs5)
      | (Inr n, fs5) \<Rightarrow> (None, fs5))))))"

section \<open>The \<open>Copier\<close> and its directory copy\<close>

text \<open>
  \<open>Copier\<close> is the exported struct. \<open>Fs\<close> is \<open>None\<close> for a nil handle; the filesystem
  state that \<open>Copy\<close> takes and returns is the state of the filesystem the handle names
  (the operating system's when the handle is nil). \<open>seen\<close> is \<open>None\<close> for the nil
  pointer and otherwise the key set of the \<open>sync.Map\<close> it points to.
\<close>

datatype fs_handle = NewOsFs | GivenFs

record Copier =
  Fs :: "fs_handle option"
  Clobber :: bool
  Parallel :: int
  seen :: "string set option"

record job =
  From :: string
  To :: string

text \<open>
  The directory copy runs four kinds of goroutines: \<open>walk\<close>, \<open>copyFiles\<close>, the workers
  that \<open>copyFiles\<close> spawns, and \<open>collectErrors\<close> on the caller's goroutine. Each is a
  small state machine; a step of one goroutine is one channel operation or one call of
  \<open>copyFile\<close>, of the walker's visit of one path. Both channels are unbuffered: a send
  completes in the step in which its receiver takes the value.

  \<^item> The walker is \<open>Walking paths\<close> (the paths \<open>afero.Walk\<close> has still to visit, the
    next one first), \<open>Sending j paths\<close> (blocked in \<open>c.work <- j\<close>), \<open>Failing e\<close>
    (blocked in \<open>c.failures <- e\<close>), \<open>Closing\<close> (before \<open>close(c.work)\<close>) or
    \<open>Finished\<close>.
  \<^item> A worker is \<open>Idle\<close> (in \<open>range c.work\<close>), \<open>Busy j\<close> (before \<open>copyFile\<close> of the
    job it received), \<open>Reporting e\<close> (blocked in \<open>c.failures <- e\<close>) or \<open>Exited\<close>
    (after \<open>jobs.Done()\<close>).
  \<^item> \<open>copyFiles\<close> is \<open>Spawning\<close> (before its loop), \<open>Waiting\<close> (in \<open>jobs.Wait()\<close>) or
    \<open>Closed\<close> (after \<open>close(c.failures)\<close>).
  \<^item> \<open>collectErrors\<close> holds \<open>errs\<close>, and \<open>returned\<close> once it has returned.
  \<^item> \<open>panicked\<close> is set when a goroutine sends on the closed failure channel.

  \<open>events\<close> is a history of what happened (jobs enqueued, transfers with their
  results, walk failures); no step reads it.
\<close>

datatype walk_state =
    Walking "string list" | Sending job "string list" | Failing error
  | Closing | Finished

datatype worker = Idle | Busy job | Reporting error | Exited

datatype pool_state = Spawning | Waiting | Closed

datatype event = Enqueued job | Transferred job "error option" | WalkFailed error

record copier =
  c_fs :: filesys
  c_parallel :: int
  c_seen :: "string set"
  c_work_closed :: bool
  c_failures_closed :: bool
  panicked :: bool
  walk_from :: string
  walk_to :: string
  walker :: walk_state
  pool :: pool_state
  workers :: "worker list"
  errs :: "error list"
  returned :: "error option option"
  events :: "event list"

text \<open>
  \<open>copier.walk\<close>. A visit of \<open>path\<close> is what \<open>afero.Walk\<close> does for one path: \<open>Lstat\<close>,
  the call of the \<open>walker\<close> closure, and for a directory the reading of its names, whose
  paths are visited next. Any error ends the walk, and is sent on \<open>c.failures\<close> wrapped.
  For a file the closure computes \<open>toPath\<close>, skips it when \<open>c.seen\<close> has it, and otherwise
  stores it and sends the job.
\<close>

definition walk_visit :: "copier \<Rightarrow> string \<Rightarrow> string list \<Rightarrow> copier" where
  "walk_visit s path rest =
     (case Lstat (c_fs s) path of
        (Inl err, fs1) \<Rightarrow>
          s\<lparr>c_fs := fs1, walker := Failing (Wrap ''walking file system'' (Cause err))\<rparr>
      | (Inr info, fs1) \<Rightarrow>
          if IsDir info then
            (case readDirNames fs1 path of
               (Inl err, fs2) \<Rightarrow>
                 s\<lparr>c_fs := fs2, walker := Failing (Wrap ''walking file system'' (Cause err))\<rparr>
             | (Inr names, fs2) \<Rightarrow>
                 s\<lparr>c_fs := fs2, walker := Walking (map (filepath_Join path) names @ rest)\<rparr>)
          else
            (let toPath = filepath_Join (walk_to s) (strings_Replace1 path (walk_from s))
             in if toPath \<in> c_seen s then s\<lparr>c_fs := fs1, walker := Walking rest\<rparr>
                else s\<lparr>c_fs := fs1,
                       c_seen := insert toPath (c_seen s),
                       walker := Sending \<lparr>From = path, To = toPath\<rparr> rest,
                       events := events s @ [Enqueued \<lparr>From = path, To = toPath\<rparr>]\<rparr>))"

definition walk_step :: "copier \<Rightarrow> copier" where
  "walk_step s =
     (case walker s of
        Walking [] \<Rightarrow> s\<lparr>c_work_closed := True, walker := Finished\<rparr>
      | Walking (path # rest) \<Rightarrow> walk_visit s path rest
      | Sending j rest \<Rightarrow> s
      | Failing e \<Rightarrow>
          if c_failures_closed s then s\<lparr>panicked := True\<rparr>
          else s\<lparr>errs := errs s @ [e], walker := Closing, events := events s @ [WalkFailed e]\<rparr>
      | Closing \<Rightarrow> s\<lparr>c_work_closed := True, walker := Finished\<rparr>
      | Finished \<Rightarrow> s)"

text \<open>
  The loop of \<open>copyFiles\<close>: \<open>for ii := 0; ii < c.parallel-1; ii++\<close>, one worker per
  iteration.
\<close>

function spawn_loop :: "int \<Rightarrow> int \<Rightarrow> worker list" where
  "spawn_loop ii par = (if ii < par - 1 then Idle # spawn_loop (ii + 1) par else [])"
  by pat_completeness auto
termination
  by (relation "measure (\<lambda>(ii, par). nat (par - 1 - ii))") auto

declare spawn_loop.simps [simp del]

definition copyFiles_step :: "copier \<Rightarrow> copier" where
  "copyFiles_step s =
     (case pool s of
        Spawning \<Rightarrow>
          (let par = (if c_parallel s < 1 then 10 else c_parallel s)
           in s\<lparr>c_parallel := par, workers := spawn_loop 0 par, pool := Waiting\<rparr>)
      | Waiting \<Rightarrow>
          if list_all (\<lambda>w. w = Exited) (workers s)
          then s\<lparr>c_failures_closed := True, pool := Closed\<rparr>
          else s
      | Closed \<Rightarrow> s)"

text \<open>
  The body of a worker: take a job from \<open>c.work\<close> (the walker's pending send), or exit
  when the channel is closed; run \<open>copyFile\<close>; send its error on \<open>c.failures\<close>, where
  \<open>collectErrors\<close> appends it to \<open>errs\<close>.
\<close>

definition worker_step :: "nat \<Rightarrow> copier \<Rightarrow> copier" where
  "worker_step i s =
     (if length (workers s) \<le> i then s
      else (case workers s ! i of
              Idle \<Rightarrow>
                (case walker s of
                   Sending j rest \<Rightarrow>
                     s\<lparr>walker := Walking rest, workers := (workers s)[i := Busy j]\<rparr>
                 | _ \<Rightarrow>
                     if c_work_closed s then s\<lparr>workers := (workers s)[i := Exited]\<rparr> else s)
            | Busy j \<Rightarrow>
                (case copyFile (c_fs s) (From j) (To j) of
                   (None, fs1) \<Rightarrow>
                     s\<lparr>c_fs := fs1, workers := (workers s)[i := Idle],
                       events := events s @ [Transferred j None]\<rparr>
                 | (Some err, fs1) \<Rightarrow>
                     s\<lparr>c_fs := fs1, workers := (workers s)[i := Reporting err],
                       events := events s @ [Transferred j (Some err)]\<rparr>)
            | Reporting err \<Rightarrow>
                if c_failures_closed s then s\<lparr>panicked := True\<rparr>
                else s\<lparr>workers := (workers s)[i := Idle], errs := errs s @ [err]\<rparr>
            | Exited \<Rightarrow> s))"

text \<open>\<open>collectErrors\<close> returns once \<open>c.failures\<close> is closed.\<close>

definition collectErrors_step :: "copier \<Rightarrow> copier" where
  "collectErrors_step s =
     (if c_failures_closed s \<and> returned s = None
      then s\<lparr>returned := Some (if errs s \<noteq> [] then Some (Failures (errs s)) else None)\<rparr>
      else s)"

text \<open>
  A schedule names the goroutine that moves next; a goroutine that is blocked or done
  leaves the state as it is. A panic ends the process: nothing moves after it.
\<close>

datatype actor = Walk | CopyFiles | Worker nat | CollectErrors

definition step :: "actor \<Rightarrow> copier \<Rightarrow> copier" where
  "step a s =
     (if panicked s then s
      else (case a of
              Walk \<Rightarrow> walk_step s
            | CopyFiles \<Rightarrow> copyFiles_step s
            | Worker i \<Rightarrow> worker_step i s
            | CollectErrors \<Rightarrow> collectErrors_step s))"

fun exec :: "actor list \<Rightarrow> copier \<Rightarrow> copier" where
  "exec [] s = s"
| "exec (a # as) s = exec as (step a s)"

text \<open>
  \<open>Copier.copy\<close> and \<open>copier.copy\<close>: the private copier with fresh channels and the
  \<open>Copier\<close>'s \<open>seen\<close> map, before any goroutine has moved.
\<close>

definition Copier_copy :: "Copier \<Rightarrow> filesys \<Rightarrow> string \<Rightarrow> string \<Rightarrow> copier" where
  "Copier_copy c fs from to =
     \<lparr>c_fs = fs,
      c_parallel = Parallel c,
      c_seen = (case seen c of None \<Rightarrow> {} | Some S \<Rightarrow> S),
      c_work_closed = False,
      c_failures_closed = False,
      panicked = False,
      walk_from = from,
      walk_to = to,
      walker = Walking [from],
      pool = Spawning,
      workers = [],
      errs = [],
      returned = None,
      events = []\<rparr>"

text \<open>
  \<open>Copier.Copy\<close> up to the point where the goroutines start: it either returns, or has
  made the private copier of a directory copy.
\<close>

datatype copy_start = Return "error option" Copier filesys | DirectoryCopy Copier copier

definition Copy_start :: "Copier \<Rightarrow> filesys \<Rightarrow> string \<Rightarrow> string \<Rightarrow> copy_start" where
  "Copy_start c fs from to =
     (if from = to then Return None c fs
      else
        (let c1 = (if Fs c = None then c\<lparr>Fs := Some NewOsFs\<rparr> else c)
         in case Stat fs from of
              (Inl err, fs1) \<Rightarrow>
                Return (Some (Wrap ''reading file metadata'' (Cause err))) c1 fs1
            | (Inr fromFi, fs1) \<Rightarrow>
                (case Stat fs1 to of
                   (st, fs2) \<Rightarrow>
                     if \<not> IsNotExist (case st of Inl err \<Rightarrow> Some err | Inr fi \<Rightarrow> None)
                        \<and> \<not> Clobber c1
                     then Return (Some (ErrClobberAvoided to)) c1 fs2
                     else if \<not> IsDir fromFi then
                       (case copyFile fs2 from to of (r, fs3) \<Rightarrow> Return r c1 fs3)
                     else
                       (case MkdirAll fs2 to (Mode fromFi) of
                          (Some err, fs3) \<Rightarrow> Return (Some (Cause err)) c1 fs3
                        | (None, fs3) \<Rightarrow>
                            (let c2 = (if seen c1 = None then c1\<lparr>seen := Some {}\<rparr> else c1)
                             in DirectoryCopy c2 (Copier_copy c2 fs3 from to))))))"

text \<open>
  \<open>Copier.Copy\<close> under a schedule of its goroutines. The first component is \<open>None\<close>
  when \<open>collectErrors\<close> has not returned within the schedule, and otherwise the error
  \<open>Copy\<close> returns (\<open>Some None\<close> for nil). The \<open>Copier\<close> keeps its pointer to the \<open>seen\<close>
  map, so it holds what the walker stored.
\<close>

definition Copy ::
  "actor list \<Rightarrow> Copier \<Rightarrow> filesys \<Rightarrow> string \<Rightarrow> string \<Rightarrow> error option option \<times> Copier \<times> filesys"
where
  "Copy sched c fs from to =
     (case Copy_start c fs from to of
        Return r c1 fs1 \<Rightarrow> (Some r, c1, fs1)
      | DirectoryCopy c2 s0 \<Rightarrow>
          (let s = exec sched s0
           in (returned s, c2\<lparr>seen := Some (c_seen s)\<rparr>, c_fs s)))"

section \<open>Reading the history of a directory copy\<close>

text \<open>
  The jobs the walker enqueued, the transfers the workers ran (each with the result of
  \<open>copyFile\<close>), the errors among them, and the errors of the walk, in order.
\<close>

fun enqueued :: "event list \<Rightarrow> job list" where
  "enqueued [] = []"
| "enqueued (Enqueued j # evs) = j # enqueued evs"
| "enqueued (ev # evs) = enqueued evs"

fun transferred :: "event list \<Rightarrow> (job \<times> error option) list" where
  "transferred [] = []"
| "transferred (Transferred j r # evs) = (j, r) # transferred evs"
| "transferred (ev # evs) = transferred evs"

fun walk_failures :: "event list \<Rightarrow> error list" where
  "walk_failures [] = []"
| "walk_failures (WalkFailed e # evs) = e # walk_failures evs"
| "walk_failures (ev # evs) = walk_failures evs"

fun transfer_errors :: "(job \<times> error option) list \<Rightarrow> error list" where
  "transfer_errors [] = []"
| "transfer_errors ((j, Some e) # ts) = e # transfer_errors ts"
| "transfer_errors ((j, None) # ts) = transfer_errors ts"

text \<open>
  What is under way in a state: the job the walker is sending, the jobs the workers
  hold, the errors the workers are reporting.
\<close>

fun sending :: "walk_state \<Rightarrow> job multiset" where
  "sending (Sending j rest) = {#j#}"
| "sending w = {#}"

fun busy :: "worker \<Rightarrow> job multiset" where
  "busy (Busy j) = {#j#}"
| "busy w = {#}"


definition in_flight :: "copier \<Rightarrow> job multiset" where
  "in_flight s = sending (walker s) + sum_list (map busy (workers s))"

text \<open>
  The invariant of the \<open>seen\<close> map, for a copy that started with the set \<open>S0\<close>: \<open>seen\<close>
  is \<open>S0\<close> and the destinations enqueued since, none of which was in \<open>S0\<close> or enqueued
  twice; every enqueued job is under way or was transferred.
\<close>

definition dedup_inv :: "string set \<Rightarrow> copier \<Rightarrow> bool" where
  "dedup_inv S0 s =
     (c_seen s = S0 \<union> To ` set (enqueued (events s))
      \<and> S0 \<inter> To ` set (enqueued (events s)) = {}
      \<and> distinct (map To (enqueued (events s)))
      \<and> mset (map fst (transferred (events s))) + in_flight s = mset (enqueued (events s))
      \<and> (workers s = [] \<or> pool s \<noteq> Spawning))"

text \<open>The regular file at a cleaned name: its mode and content.\<close>

definition file_at :: "filesys \<Rightarrow> string \<Rightarrow> (nat \<times> string) option" where
  "file_at fs q = (case node_at fs q of Some (FileNode m c) \<Rightarrow> Some (m, c) | _ \<Rightarrow> None)"

text \<open>
  Shapes of path elements, for the proof that \<open>filepath.Clean\<close> leaves a cleaned path as
  it is: an element without separator; an element that is neither empty, \<open>.\<close> nor
  \<open>..\<close>; a list of \<open>..\<close> elements (none when the path is rooted) followed by such
  elements only.
\<close>

definition sep_free :: "string \<Rightarrow> bool" where
  "sep_free e = (CHR ''/'' \<notin> set e)"

definition normal :: "string \<Rightarrow> bool" where
  "normal e = (e \<noteq> [] \<and> e \<noteq> ''.'' \<and> e \<noteq> ''..'')"

fun dots_then_normal :: "bool \<Rightarrow> string list \<Rightarrow> bool" where
  "dots_then_normal r [] = True"
| "dots_then_normal r (e # es) =
     (if e = ''..'' then \<not> r \<and> dots_then_normal r es else normal e \<and> list_all normal es)"


text \<open>The cleaned destinations of the transfers that have run, failed ones included.\<close>

definition written :: "copier \<Rightarrow> string set" where
  "written s = (\<lambda>t. filepath_Clean (To (fst t))) ` set (transferred (events s))"

text \<open>
  The invariant of the files, for a copy that started on the filesystem \<open>fs0\<close>: a
  regular file outside the destinations transferred to is as it was in \<open>fs0\<close>; the
  destination of a transfer that succeeded is a regular file; and, for a destination
  path \<open>to\<close> that is not empty, every enqueued destination is a cleaned path, and a
  destination that held no regular file in \<open>fs0\<close> holds what its source held in \<open>fs0\<close>,
  unless that source was itself transferred to.
\<close>

definition fs_inv :: "filesys \<Rightarrow> copier \<Rightarrow> bool" where
  "fs_inv fs0 s =
     ((\<forall>q. q \<notin> written s \<longrightarrow> file_at (c_fs s) q = file_at fs0 q)
      \<and> (\<forall>j. (j, None) \<in> set (transferred (events s)) \<longrightarrow>
             file_at (c_fs s) (filepath_Clean (To j)) \<noteq> None)
      \<and> (walk_to s \<noteq> [] \<longrightarrow>
           (\<forall>j \<in> set (enqueued (events s)). filepath_Clean (To j) = To j)
           \<and> (\<forall>j. (j, None) \<in> set (transferred (events s)) \<longrightarrow>
                 file_at fs0 (filepath_Clean (To j)) = None \<longrightarrow>
                 filepath_Clean (From j) \<notin> written s \<longrightarrow>
                 file_at (c_fs s) (filepath_Clean (To j)) = file_at fs0 (filepath_Clean (From j)))))"

text \<open>The \<open>seen\<close> set with which a directory copy begins, if \<open>Copy\<close> gets that far.\<close>

definition starting_seen :: "copy_start \<Rightarrow> string set option" where
  "starting_seen cs =
     (case cs of Return r c fs \<Rightarrow> None | DirectoryCopy c s0 \<Rightarrow> Some (c_seen s0))"

section \<open>Fixtures\<close>

text \<open>Small filesystems and copiers on which the theorems below are evaluated.\<close>

definition fresh_copier :: Copier where
  "fresh_copier = \<lparr>Fs = Some GivenFs, Clobber = False, Parallel = 0, seen = None\<rparr>"

definition tree_fs :: filesys where
  "tree_fs =
     \<lparr>nodes = [(''from'', DirNode 493), (''from/a'', FileNode 420 ''hi''), (''to'', DirNode 493)],
      denied = [], oplog = []\<rparr>"

definition guarded_fs :: filesys where
  "guarded_fs =
     \<lparr>nodes = [(''from'', DirNode 493), (''from/a'', FileNode 420 ''hi'')],
      denied = [''to''], oplog = []\<rparr>"

definition stale_fs :: filesys where
  "stale_fs =
     \<lparr>nodes = [(''src'', FileNode 420 ''ab''), (''dst'', FileNode 384 ''wxyz'')],
      denied = [], oplog = []\<rparr>"

definition source_fs :: filesys where
  "source_fs =
     \<lparr>nodes = [(''from'', DirNode 493), (''from/a'', FileNode 420 ''hi'')],
      denied = [], oplog = []\<rparr>"

text \<open>
  \<open>source_fs\<close> when \<open>Copy\<close> to \<open>to\<close> has made the destination directory, and when one
  full copy has run.
\<close>

definition started_fs :: filesys where
  "started_fs =
     \<lparr>nodes = [(''from'', DirNode 493), (''from/a'', FileNode 420 ''hi''), (''to'', DirNode 493)],
      denied = [],
      oplog = [OpStat ''from'', OpStat ''to'', OpMkdirAll ''to'']\<rparr>"

definition copied_fs :: filesys where
  "copied_fs =
     \<lparr>nodes = [(''from'', DirNode 493), (''from/a'', FileNode 420 ''hi''), (''to'', DirNode 493),
               (''to/a'', FileNode 420 ''hi'')],
      denied = [],
      oplog = [OpStat ''from'', OpStat ''to'', OpMkdirAll ''to'', OpLstat ''from'',
               OpReadDir ''from'', OpLstat ''from/a'', OpOpen ''from/a'', OpFileStat ''from/a'',
               OpMkdirAll ''to'', OpOpenFile ''to/a'', OpWrite ''to/a'']\<rparr>"

definition clobbering_copier :: Copier where
  "clobbering_copier = \<lparr>Fs = Some GivenFs, Clobber = True, Parallel = 2, seen = None\<rparr>"

text \<open>
  Schedules that copy \<open>source_fs\<close> to the end with one worker and with three: the pool
  starts, the walker visits \<open>from\<close> and \<open>from/a\<close>, worker 0 takes the job and copies, the
  walker closes the queue, the workers exit, the pool closes the failure channel, and
  \<open>collectErrors\<close> returns.
\<close>

definition one_worker_run :: "actor list" where
  "one_worker_run =
     [CopyFiles, Walk, Walk, Worker 0, Worker 0, Walk, Worker 0, CopyFiles, CollectErrors]"

definition three_worker_run :: "actor list" where
  "three_worker_run =
     [CopyFiles, Walk, Walk, Worker 0, Worker 0, Walk, Worker 0, Worker 1, Worker 2,
      CopyFiles, CollectErrors]"

text \<open>
  The states of the copy of \<open>source_fs\<close> to \<open>to\<close> with \<open>Parallel = 1\<close>: there is no
  worker, the walker gets as far as sending the job of \<open>from/a\<close>, and the filesystem
  holds what it held when the copy began.
\<close>

definition stuck :: "copier \<Rightarrow> bool" where
  "stuck s =
     (workers s = [] \<and> (c_parallel s = 1 \<or> pool s \<noteq> Spawning)
      \<and> nodes (c_fs s) =
          [(''from'', DirNode 493), (''from/a'', FileNode 420 ''hi''), (''to'', DirNode 493)]
      \<and> denied (c_fs s) = [] \<and> errs s = [] \<and> \<not> panicked s \<and> \<not> c_work_closed s
      \<and> walk_from s = ''from'' \<and> walk_to s = ''to''
      \<and> (returned s = None \<or> returned s = Some None)
      \<and> (walker s = Walking [''from''] \<and> c_seen s = {}
          \<or> walker s = Walking [''from/a''] \<and> c_seen s = {}
          \<or> walker s = Sending \<lparr>From = ''from/a'', To = ''to/a''\<rparr> []))"





section \<open>Basic facts\<close>

lemmas eval_defs =
  Copy_def Copy_start_def Stat_def stat_result_def lookup_def node_at_def is_root_def logged_def
  filepath_Clean_def filepath_Dir_def filepath_Base_def filepath_Join_def info_of_def
  IsNotExist_def MkdirAll_def path_chain_def Copier_copy_def Let_def step_def
  copyFiles_step_def collectErrors_step_def walk_step_def walk_visit_def worker_step_def
  Lstat_def readDirNames_def copyFile_def Open_def File_Stat_def OpenFile_def io_Copy_def
  spawn_loop.simps

lemma enqueued_snoc [simp]:
  "enqueued (evs @ [Enqueued j]) = enqueued evs @ [j]"
  "enqueued (evs @ [Transferred j r]) = enqueued evs"
  "enqueued (evs @ [WalkFailed e]) = enqueued evs"
  by (induction evs rule: enqueued.induct) simp_all

lemma transferred_snoc [simp]:
  "transferred (evs @ [Enqueued j]) = transferred evs"
  "transferred (evs @ [Transferred j r]) = transferred evs @ [(j, r)]"
  "transferred (evs @ [WalkFailed e]) = transferred evs"
  by (induction evs rule: transferred.induct) simp_all

lemma walk_failures_snoc [simp]:
  "walk_failures (evs @ [Enqueued j]) = walk_failures evs"
  "walk_failures (evs @ [Transferred j r]) = walk_failures evs"
  "walk_failures (evs @ [WalkFailed e]) = walk_failures evs @ [e]"
  by (induction evs rule: walk_failures.induct) simp_all

lemma transfer_errors_snoc [simp]:
  "transfer_errors (ts @ [(j, Some e)]) = transfer_errors ts @ [e]"
  "transfer_errors (ts @ [(j, None)]) = transfer_errors ts"
  by (induction ts rule: transfer_errors.induct) simp_all

lemma sum_list_update_mset:
  fixes f :: "'a \<Rightarrow> 'b multiset"
  shows "i < length ws \<Longrightarrow>
    sum_list (map f (ws[i := w])) + f (ws ! i) = sum_list (map f ws) + f w"
proof (induction ws arbitrary: i)
  case Nil
  then show ?case by simp
next
  case (Cons x xs)
  then show ?case by (cases i) (simp_all add: ac_simps)
qed

lemma stat_result_logged [simp]: "stat_result (logged ev fs) p = stat_result fs p"
  by (simp add: stat_result_def logged_def lookup_def node_at_def is_root_def)

lemma spawn_loop_length: "length (spawn_loop ii par) = nat (par - 1 - ii)"
proof (induction ii par rule: spawn_loop.induct)
  case (1 ii par)
  show ?case
  proof (cases "ii < par - 1")
    case True
    then show ?thesis using 1 by (subst spawn_loop.simps) simp
  next
    case False
    then show ?thesis by (subst spawn_loop.simps) simp
  qed
qed

section \<open>The worker pool's size\<close>

text \<open>
  Claim C1 says that the pool has exactly N workers, N the configured parallelism, 10
  when unset or non-positive, and at least 1. The loop of \<open>copyFiles\<close> runs while
  \<open>ii < c.parallel-1\<close>: with \<open>Parallel = 1\<close> it spawns no worker at all, and with
  \<open>Parallel\<close> unset (0, hence 10) it spawns 9.
\<close>

theorem copyFiles_spawns_one_worker_less:
  "workers (step CopyFiles (Copier_copy (c\<lparr>Parallel := 1\<rparr>) fs from to)) = []
   \<and> length (workers (step CopyFiles (Copier_copy (c\<lparr>Parallel := 0\<rparr>) fs from to))) = 9
   \<and> length (workers (step CopyFiles (Copier_copy (c\<lparr>Parallel := 4\<rparr>) fs from to))) = 3"
  by (simp add: step_def copyFiles_step_def Copier_copy_def spawn_loop_length)
     (simp add: spawn_loop.simps)

section \<open>A single file transfer onto an existing file\<close>

text \<open>
  Claim C2 says that after a successful transfer the destination has exactly the
  source's content and permission bits, the destination being truncated when it exists.
  \<open>copyFile\<close> opens the destination with \<open>O_CREATE|O_RDWR\<close>, without \<open>O_TRUNC\<close>: copying
  the two bytes \<open>ab\<close> (mode 0644 = 420) onto an existing file \<open>wxyz\<close> (mode 0600 = 384)
  succeeds and leaves \<open>abyz\<close> with mode 0600.
\<close>

theorem copyFile_keeps_stale_tail_and_mode:
  "copyFile stale_fs ''src'' ''dst'' =
     (None,
      \<lparr>nodes = [(''src'', FileNode 420 ''ab''), (''dst'', FileNode 384 ''abyz'')],
       denied = [],
       oplog = [OpOpen ''src'', OpFileStat ''src'', OpMkdirAll ''.'', OpOpenFile ''dst'',
                OpWrite ''dst'']\<rparr>)"
  by (simp add: stale_fs_def copyFile_def Open_def File_Stat_def MkdirAll_def OpenFile_def
      io_Copy_def lookup_def node_at_def is_root_def logged_def filepath_Clean_def filepath_Dir_def
      path_chain_def info_of_def Let_def)

section \<open>The checks of \<open>Copy\<close> before anything is written\<close>

text \<open>
  Claim C6: for every path \<open>x\<close>, existing or not, \<open>Copy(x, x)\<close> returns nil and leaves
  the filesystem as it was; no call of the filesystem is made (the log of calls is
  unchanged as well), and the \<open>Copier\<close> is unchanged.
\<close>

theorem Copy_same_path_is_noop: "Copy sched c fs x x = (Some None, c, fs)"
  by (simp add: Copy_def Copy_start_def)

text \<open>
  Claim C5: when \<open>Stat\<close> of \<open>from\<close> fails, \<open>Copy\<close> returns that error wrapped as
  "reading file metadata"; when \<open>to\<close> exists and \<open>Clobber\<close> is false, \<open>Copy\<close> returns
  \<open>ErrClobberAvoided\<close> with the path \<open>to\<close>. In both cases the filesystem is the one
  \<open>Copy\<close> was given, but for the log of calls, which has the \<open>Stat\<close> calls only.
  (\<open>Copy\<close> reaches \<open>Stat\<close> of \<open>from\<close> when \<open>from\<close> and \<open>to\<close> differ, and \<open>Stat\<close> of \<open>to\<close>
  when \<open>Stat\<close> of \<open>from\<close> succeeded.)
\<close>

theorem Copy_fails_before_any_mutation:
  "from \<noteq> to \<Longrightarrow>
     (fst (Stat fs from) = Inl e \<longrightarrow>
        (\<exists>c'. Copy sched c fs from to =
                 (Some (Some (Wrap ''reading file metadata'' (Cause e))), c',
                  fs\<lparr>oplog := oplog fs @ [OpStat from]\<rparr>)))
   \<and> (fst (Stat fs from) = Inr fi \<and> lookup fs to \<noteq> None \<and> \<not> Clobber c \<longrightarrow>
        (\<exists>c'. Copy sched c fs from to =
                 (Some (Some (ErrClobberAvoided to)), c',
                  fs\<lparr>oplog := oplog fs @ [OpStat from, OpStat to]\<rparr>)))"
  by (auto simp add: Copy_def Copy_start_def Stat_def logged_def IsNotExist_def
      stat_result_def lookup_def node_at_def is_root_def Let_def split: sum.splits option.splits)

theorem Copy_fails_before_any_mutation_witness:
  "(\<exists>c'. Copy [] fresh_copier tree_fs ''gone'' ''to'' =
           (Some (Some (Wrap ''reading file metadata'' (Cause ErrNotExist))), c',
            tree_fs\<lparr>oplog := [OpStat ''gone'']\<rparr>))
   \<and> (\<exists>c'. Copy [] fresh_copier tree_fs ''from'' ''to'' =
           (Some (Some (ErrClobberAvoided ''to'')), c',
            tree_fs\<lparr>oplog := [OpStat ''from'', OpStat ''to'']\<rparr>))"
proof -
  have ne1: "''gone'' \<noteq> ''to''" and ne2: "''from'' \<noteq> ''to''"
    by simp_all
  have s1: "fst (Stat tree_fs ''gone'') = Inl ErrNotExist"
    by (simp add: Stat_def stat_result_def lookup_def node_at_def is_root_def tree_fs_def
        filepath_Clean_def Let_def)
  have s2: "fst (Stat tree_fs ''from'') = Inr \<lparr>IsDir = True, Mode = 493\<rparr>"
    by (simp add: Stat_def stat_result_def lookup_def node_at_def is_root_def tree_fs_def
        filepath_Clean_def info_of_def Let_def)
  have s3: "lookup tree_fs ''to'' \<noteq> None"
    by (simp add: lookup_def node_at_def is_root_def tree_fs_def filepath_Clean_def Let_def)
  have s4: "\<not> Clobber fresh_copier" and s5: "oplog tree_fs = []"
    by (simp_all add: fresh_copier_def tree_fs_def)
  from Copy_fails_before_any_mutation
         [OF ne1, where fs = tree_fs and e = ErrNotExist and sched = "[]" and c = fresh_copier]
       Copy_fails_before_any_mutation
         [OF ne2, where fs = tree_fs and sched = "[]" and c = fresh_copier
            and fi = "\<lparr>IsDir = True, Mode = 493\<rparr>"]
       s1 s2 s3 s4 s5
  show ?thesis by simp
qed

text \<open>
  Claim C10: with \<open>Clobber\<close> false, when \<open>Stat\<close> of \<open>to\<close> returns any error other than a
  not-exist error, \<open>Copy\<close> returns \<open>ErrClobberAvoided\<close> with the path \<open>to\<close> and has written
  nothing: the guard \<open>!os.IsNotExist(err) && !c.Clobber\<close> fires on every outcome of that
  \<open>Stat\<close> but not-exist. The destination need not exist: in the witness \<open>to\<close> names no
  node and \<open>Stat\<close> answers with a permission error.
\<close>

theorem Copy_clobber_guard_on_any_stat_error:
  "from \<noteq> to \<Longrightarrow> fst (Stat fs from) = Inr fi \<Longrightarrow> \<not> Clobber c \<Longrightarrow>
   fst (Stat (snd (Stat fs from)) to) = Inl e \<Longrightarrow> e \<noteq> ErrNotExist \<Longrightarrow>
     (\<exists>c'. Copy sched c fs from to =
              (Some (Some (ErrClobberAvoided to)), c',
               fs\<lparr>oplog := oplog fs @ [OpStat from, OpStat to]\<rparr>))"
  by (auto simp add: Copy_def Copy_start_def Stat_def logged_def IsNotExist_def Let_def
      split: sum.splits option.splits)

theorem Copy_clobber_guard_on_any_stat_error_witness:
  "lookup guarded_fs ''to'' = None
   \<and> fst (Stat (snd (Stat guarded_fs ''from'')) ''to'') = Inl ErrPermission
   \<and> (\<exists>c'. Copy [] fresh_copier guarded_fs ''from'' ''to'' =
              (Some (Some (ErrClobberAvoided ''to'')), c',
               guarded_fs\<lparr>oplog := [OpStat ''from'', OpStat ''to'']\<rparr>))"
proof -
  have ne: "''from'' \<noteq> ''to''"
    by simp
  have s1: "fst (Stat guarded_fs ''from'') = Inr \<lparr>IsDir = True, Mode = 493\<rparr>"
    by (simp add: Stat_def stat_result_def lookup_def node_at_def is_root_def guarded_fs_def
        filepath_Clean_def info_of_def Let_def)
  have s2: "\<not> Clobber fresh_copier"
    by (simp add: fresh_copier_def)
  have s3: "fst (Stat (snd (Stat guarded_fs ''from'')) ''to'') = Inl ErrPermission"
    by (simp add: Stat_def stat_result_def guarded_fs_def filepath_Clean_def logged_def
        Let_def)
  have s4: "ErrPermission \<noteq> ErrNotExist"
    by simp
  have s5: "lookup guarded_fs ''to'' = None" and s6: "oplog guarded_fs = []"
    by (simp_all add: lookup_def node_at_def is_root_def guarded_fs_def filepath_Clean_def Let_def)
  from Copy_clobber_guard_on_any_stat_error [OF ne s1 s2 s3 s4, where sched = "[]"] s3 s5 s6
  show ?thesis by simp
qed

section \<open>The \<open>seen\<close> map: no destination is enqueued twice\<close>

lemma busy_spawn_loop: "sum_list (map busy (spawn_loop ii par)) = {#}"
proof (induction ii par rule: spawn_loop.induct)
  case (1 ii par)
  show ?case
  proof (cases "ii < par - 1")
    case True
    then show ?thesis using 1 by (subst spawn_loop.simps) simp
  next
    case False
    then show ?thesis by (subst spawn_loop.simps) simp
  qed
qed

lemma dedup_inv_walk_step: "dedup_inv S0 s \<Longrightarrow> dedup_inv S0 (walk_step s)"
  by (auto simp add: dedup_inv_def walk_step_def walk_visit_def in_flight_def Let_def
      split: walk_state.splits list.splits prod.splits sum.splits if_splits)

lemma dedup_inv_copyFiles_step: "dedup_inv S0 s \<Longrightarrow> dedup_inv S0 (copyFiles_step s)"
  by (auto simp add: dedup_inv_def copyFiles_step_def in_flight_def Let_def busy_spawn_loop
      split: pool_state.splits)

lemma dedup_inv_collectErrors_step:
  "dedup_inv S0 s \<Longrightarrow> dedup_inv S0 (collectErrors_step s)"
  by (auto simp add: dedup_inv_def collectErrors_step_def in_flight_def)

text \<open>The effect of a worker's step, case by case.\<close>

lemma worker_step_cases:
  assumes "i < length (workers s)"
  shows "workers s ! i = Idle \<Longrightarrow> walker s = Sending j rest \<Longrightarrow>
           worker_step i s = s\<lparr>walker := Walking rest, workers := (workers s)[i := Busy j]\<rparr>"
    and "workers s ! i = Idle \<Longrightarrow> sending (walker s) = {#} \<Longrightarrow> c_work_closed s \<Longrightarrow>
           worker_step i s = s\<lparr>workers := (workers s)[i := Exited]\<rparr>"
    and "workers s ! i = Idle \<Longrightarrow> sending (walker s) = {#} \<Longrightarrow> \<not> c_work_closed s \<Longrightarrow>
           worker_step i s = s"
    and "workers s ! i = Busy j \<Longrightarrow> copyFile (c_fs s) (From j) (To j) = (None, fs1) \<Longrightarrow>
           worker_step i s = s\<lparr>c_fs := fs1, workers := (workers s)[i := Idle],
                                events := events s @ [Transferred j None]\<rparr>"
    and "workers s ! i = Busy j \<Longrightarrow> copyFile (c_fs s) (From j) (To j) = (Some err, fs1) \<Longrightarrow>
           worker_step i s = s\<lparr>c_fs := fs1, workers := (workers s)[i := Reporting err],
                                events := events s @ [Transferred j (Some err)]\<rparr>"
    and "workers s ! i = Reporting err \<Longrightarrow> c_failures_closed s \<Longrightarrow>
           worker_step i s = s\<lparr>panicked := True\<rparr>"
    and "workers s ! i = Reporting err \<Longrightarrow> \<not> c_failures_closed s \<Longrightarrow>
           worker_step i s = s\<lparr>workers := (workers s)[i := Idle], errs := errs s @ [err]\<rparr>"
    and "workers s ! i = Exited \<Longrightarrow> worker_step i s = s"
  using assms by (auto simp add: worker_step_def split: walk_state.splits)

lemma dedup_inv_worker_step:
  assumes inv: "dedup_inv S0 s"
  shows "dedup_inv S0 (worker_step i s)"
proof (cases "i < length (workers s)")
  case False
  then show ?thesis using inv by (simp add: worker_step_def)
next
  case True
  note ws = worker_step_cases [OF True]
  have upd: "sum_list (map busy ((workers s)[i := w])) + busy (workers s ! i)
             = sum_list (map busy (workers s)) + busy w" for w
    using True by (rule sum_list_update_mset)
  have ne: "workers s \<noteq> []"
    using True by auto
  show ?thesis
  proof (cases "workers s ! i")
    case Idle
    show ?thesis
    proof (cases "walker s")
      case (Sending j rest)
      then show ?thesis
        using inv ne Idle upd [of "Busy j"] ws(1) [OF Idle Sending]
        by (simp add: dedup_inv_def in_flight_def)
    qed (use inv ne Idle upd [of Exited] in
          \<open>auto simp add: dedup_inv_def in_flight_def worker_step_def\<close>)
  next
    case (Busy j)
    obtain r fs1 where cf: "copyFile (c_fs s) (From j) (To j) = (r, fs1)"
      by (cases "copyFile (c_fs s) (From j) (To j)")
    have e1: "sum_list (map busy (workers s))
        = add_mset j (sum_list (map busy ((workers s)[i := w])))"
      if "busy w = {#}" for w
      using upd [of w] Busy that by simp
    show ?thesis
    proof (cases r)
      case None
      have "worker_step i s = s\<lparr>c_fs := fs1, workers := (workers s)[i := Idle],
                                events := events s @ [Transferred j None]\<rparr>"
        using ws(4) [OF Busy] cf None by simp
      then show ?thesis
        using inv ne by (simp add: dedup_inv_def in_flight_def e1 [of Idle])
    next
      case (Some err)
      have "worker_step i s = s\<lparr>c_fs := fs1, workers := (workers s)[i := Reporting err],
                                events := events s @ [Transferred j (Some err)]\<rparr>"
        using ws(5) [OF Busy] cf Some by simp
      then show ?thesis
        using inv ne by (simp add: dedup_inv_def in_flight_def e1 [of "Reporting err"])
    qed
  next
    case (Reporting e)
    then show ?thesis
      using inv ne upd [of Idle]
      by (auto simp add: dedup_inv_def worker_step_def in_flight_def)
  next
    case Exited
    then show ?thesis
      using inv True by (simp add: worker_step_def)
  qed
qed

lemma dedup_inv_step: "dedup_inv S0 s \<Longrightarrow> dedup_inv S0 (step a s)"
  by (cases a) (simp_all add: step_def dedup_inv_walk_step dedup_inv_copyFiles_step
      dedup_inv_worker_step dedup_inv_collectErrors_step)

lemma dedup_inv_exec: "dedup_inv S0 s \<Longrightarrow> dedup_inv S0 (exec sched s)"
  by (induction sched arbitrary: s) (simp_all add: dedup_inv_step)

lemma dedup_inv_Copier_copy:
  "dedup_inv (case seen c of None \<Rightarrow> {} | Some S \<Rightarrow> S) (Copier_copy c fs from to)"
  by (simp add: dedup_inv_def Copier_copy_def in_flight_def)

lemma distinct_mset_sub:
  assumes "mset xs \<subseteq># mset ys" and "distinct ys"
  shows "distinct xs"
  unfolding distinct_count_atmost_1
proof (intro allI)
  fix a
  have le: "count (mset xs) a \<le> count (mset ys) a"
    using assms(1) by (rule mset_subset_eq_count)
  have "count (mset ys) a = (if a \<in> set ys then 1 else 0)"
    using assms(2) unfolding distinct_count_atmost_1 by blast
  then have "count (mset ys) a \<le> 1"
    by simp
  with le have "count (mset xs) a \<le> 1"
    by simp
  then have one: "count (mset xs) a \<le> 1" .
  show "count (mset xs) a = (if a \<in> set xs then 1 else 0)"
  proof (cases "a \<in> set xs")
    case True
    then have "a \<in># mset xs"
      by simp
    then have "0 < count (mset xs) a"
      by (simp only: count_greater_zero_iff)
    with one have "count (mset xs) a = 1"
      by linarith
    with True show ?thesis
      by simp
  next
    case False
    then have "a \<notin># mset xs"
      by simp
    then have "count (mset xs) a = 0"
      by (simp only: count_eq_zero_iff not_False_eq_True)
    with False show ?thesis
      by simp
  qed
qed

lemma distinct_To_sub:
  assumes "mset ts \<subseteq># mset js" and "distinct (map To js)"
  shows "distinct (map To ts)"
proof -
  have "mset (map To ts) \<subseteq># mset (map To js)"
    using assms(1) by (simp add: image_mset_subseteq_mono)
  then show ?thesis using assms(2) by (rule distinct_mset_sub)
qed

text \<open>
  Claim C8: within one directory copy, under every schedule, no destination path is
  enqueued twice; every enqueued destination is in the \<open>seen\<close> map (the walker stores it
  in the step in which it starts to send the job) and was not there when the copy
  began; every transfer is of an enqueued job, and no destination is transferred to
  twice. A visit of a regular file whose destination is in the \<open>seen\<close> map moves the
  walker on to the next path and does nothing else: no job, no error.
\<close>

theorem each_destination_enqueued_at_most_once:
  "(let s = exec sched (Copier_copy c fs from to);
        js = enqueued (events s);
        ts = map fst (transferred (events s))
    in distinct (map To js)
       \<and> To ` set js \<subseteq> c_seen s
       \<and> To ` set js \<inter> (case seen c of None \<Rightarrow> {} | Some S \<Rightarrow> S) = {}
       \<and> mset ts \<subseteq># mset js
       \<and> distinct (map To ts))
   \<and> (fst (Lstat (c_fs s1) path) = Inr info \<and> \<not> IsDir info
        \<and> filepath_Join (walk_to s1) (strings_Replace1 path (walk_from s1)) \<in> c_seen s1 \<longrightarrow>
      walk_visit s1 path rest
        = s1\<lparr>c_fs := snd (Lstat (c_fs s1) path), walker := Walking rest\<rparr>)"
proof -
  let ?s = "exec sched (Copier_copy c fs from to)"
  let ?S0 = "case seen c of None \<Rightarrow> {} | Some S \<Rightarrow> S"
  have inv: "dedup_inv ?S0 ?s"
    by (rule dedup_inv_exec) (rule dedup_inv_Copier_copy)
  have eq: "mset (map fst (transferred (events ?s))) + in_flight ?s
            = mset (enqueued (events ?s))"
    using inv by (simp add: dedup_inv_def)
  have sub: "mset (map fst (transferred (events ?s))) \<subseteq># mset (enqueued (events ?s))"
  proof -
    have "mset (map fst (transferred (events ?s)))
          \<subseteq># mset (map fst (transferred (events ?s))) + in_flight ?s"
      by (rule mset_subset_eq_add_left)
    then show ?thesis
      by (simp only: eq)
  qed
  have d1: "distinct (map To (enqueued (events ?s)))"
    using inv by (simp add: dedup_inv_def)
  have d2: "distinct (map To (map fst (transferred (events ?s))))"
    using sub d1 by (rule distinct_To_sub)
  have s1: "To ` set (enqueued (events ?s)) \<subseteq> c_seen ?s"
    and s2: "To ` set (enqueued (events ?s)) \<inter> ?S0 = {}"
    using inv by (auto simp add: dedup_inv_def)
  have visit: "fst (Lstat (c_fs s1) path) = Inr info \<and> \<not> IsDir info
        \<and> filepath_Join (walk_to s1) (strings_Replace1 path (walk_from s1)) \<in> c_seen s1 \<longrightarrow>
      walk_visit s1 path rest
        = s1\<lparr>c_fs := snd (Lstat (c_fs s1) path), walker := Walking rest\<rparr>"
    by (auto simp add: walk_visit_def Let_def split: prod.splits sum.splits)
  show ?thesis
    unfolding Let_def using d1 s1 s2 sub d2 visit by (intro conjI)
qed

theorem each_destination_enqueued_at_most_once_witness:
  "enqueued (events (exec one_worker_run (Copier_copy clobbering_copier tree_fs ''from'' ''to'')))
     = [\<lparr>From = ''from/a'', To = ''to/a''\<rparr>]
   \<and> transferred (events (exec one_worker_run (Copier_copy clobbering_copier tree_fs ''from'' ''to'')))
     = [(\<lparr>From = ''from/a'', To = ''to/a''\<rparr>, None)]
   \<and> walk_visit (Copier_copy (clobbering_copier\<lparr>seen := Some {''to/a''}\<rparr>) tree_fs ''from'' ''to'')
        ''from/a'' []
     = (Copier_copy (clobbering_copier\<lparr>seen := Some {''to/a''}\<rparr>) tree_fs ''from'' ''to'')
         \<lparr>c_fs := tree_fs\<lparr>oplog := [OpLstat ''from/a'']\<rparr>, walker := Walking []\<rparr>"
proof -
  let ?s1 = "Copier_copy (clobbering_copier\<lparr>seen := Some {''to/a''}\<rparr>) tree_fs ''from'' ''to''"
  have h1: "fst (Lstat (c_fs ?s1) ''from/a'') = Inr \<lparr>IsDir = False, Mode = 420\<rparr>"
    by (simp add: eval_defs tree_fs_def)
  have h2: "\<not> IsDir \<lparr>IsDir = False, Mode = 420\<rparr>"
    by simp
  have h3: "filepath_Join (walk_to ?s1) (strings_Replace1 ''from/a'' (walk_from ?s1)) \<in> c_seen ?s1"
    by (simp add: eval_defs)
  have h4: "snd (Lstat (c_fs ?s1) ''from/a'') = tree_fs\<lparr>oplog := [OpLstat ''from/a'']\<rparr>"
    by (simp add: eval_defs tree_fs_def)
  have r1: "enqueued (events (exec one_worker_run
              (Copier_copy clobbering_copier tree_fs ''from'' ''to'')))
            = [\<lparr>From = ''from/a'', To = ''to/a''\<rparr>]"
    by (simp add: eval_defs one_worker_run_def clobbering_copier_def tree_fs_def)
  have r2: "transferred (events (exec one_worker_run
              (Copier_copy clobbering_copier tree_fs ''from'' ''to'')))
            = [(\<lparr>From = ''from/a'', To = ''to/a''\<rparr>, None)]"
    by (simp add: eval_defs one_worker_run_def clobbering_copier_def tree_fs_def)
  from each_destination_enqueued_at_most_once
         [of one_worker_run clobbering_copier tree_fs "''from''" "''to''" ?s1 "''from/a''"
            "\<lparr>IsDir = False, Mode = 420\<rparr>" "[]"]
       h1 h2 h3 h4 r1 r2
  show ?thesis by simp
qed

section \<open>The \<open>seen\<close> map outlives the call\<close>

text \<open>What \<open>Copy_start\<close> has done when it hands over to the goroutines.\<close>

lemma Copy_start_DirectoryCopyD:
  assumes st: "Copy_start c fs from to = DirectoryCopy c2 s0"
  shows "\<exists>fs3. s0 = Copier_copy c2 fs3 from to"
    and "seen c2 = Some (case seen c of None \<Rightarrow> {} | Some S \<Rightarrow> S)"
proof -
  define c1 where "c1 = (if Fs c = None then c\<lparr>Fs := Some NewOsFs\<rparr> else c)"
  define c3 where "c3 = (if seen c1 = None then c1\<lparr>seen := Some {}\<rparr> else c1)"
  have ne: "from \<noteq> to"
    using st by (auto simp add: Copy_start_def)
  obtain r1 fs1 where S1: "Stat fs from = (r1, fs1)"
    by (cases "Stat fs from")
  obtain r2 fs2 where S2: "Stat fs1 to = (r2, fs2)"
    by (cases "Stat fs1 to")
  have unfold1: "Copy_start c fs from to =
      (case r1 of
         Inl err \<Rightarrow> Return (Some (Wrap ''reading file metadata'' (Cause err))) c1 fs1
       | Inr fromFi \<Rightarrow>
           if \<not> IsNotExist (case r2 of Inl err \<Rightarrow> Some err | Inr fi \<Rightarrow> None) \<and> \<not> Clobber c1
           then Return (Some (ErrClobberAvoided to)) c1 fs2
           else if \<not> IsDir fromFi then
             (case copyFile fs2 from to of (r, fs3) \<Rightarrow> Return r c1 fs3)
           else
             (case MkdirAll fs2 to (Mode fromFi) of
                (Some err, fs3) \<Rightarrow> Return (Some (Cause err)) c1 fs3
              | (None, fs3) \<Rightarrow> DirectoryCopy c3 (Copier_copy c3 fs3 from to)))"
    unfolding Copy_start_def Let_def c1_def [symmetric] c3_def [symmetric]
    by (simp only: ne if_False S1 S2 prod.case)
  from st obtain fs3 where "DirectoryCopy c2 s0 = DirectoryCopy c3 (Copier_copy c3 fs3 from to)"
    unfolding unfold1
    by (auto split: sum.splits if_splits prod.splits option.splits)
  then have c2: "c2 = c3" and s0: "s0 = Copier_copy c3 fs3 from to"
    by simp_all
  show "\<exists>fs3. s0 = Copier_copy c2 fs3 from to"
    using c2 s0 by blast
  show "seen c2 = Some (case seen c of None \<Rightarrow> {} | Some S \<Rightarrow> S)"
    unfolding c2 c3_def c1_def by (cases "seen c") simp_all
qed

text \<open>
  A directory copy begins with the set the \<open>Copier\<close> holds, which is empty only when
  the \<open>Copier\<close> has none yet, and \<open>Copy\<close> leaves in the \<open>Copier\<close> the set it began
  with, extended by the destinations it enqueued.
\<close>

lemma seen_persists_in_Copier:
  "Copy_start c fs from to = DirectoryCopy c2 s0 \<Longrightarrow>
     c_seen s0 = (case seen c of None \<Rightarrow> {} | Some S \<Rightarrow> S)
   \<and> seen c2 = Some (c_seen s0)
   \<and> fst (snd (Copy sched c fs from to)) =
       c2\<lparr>seen := Some (c_seen s0 \<union> To ` set (enqueued (events (exec sched s0))))\<rparr>"
proof -
  assume st: "Copy_start c fs from to = DirectoryCopy c2 s0"
  obtain fs3 where s0: "s0 = Copier_copy c2 fs3 from to"
    using Copy_start_DirectoryCopyD(1) [OF st] by blast
  have c2: "seen c2 = Some (case seen c of None \<Rightarrow> {} | Some S \<Rightarrow> S)"
    by (rule Copy_start_DirectoryCopyD(2) [OF st])
  have a: "c_seen s0 = (case seen c of None \<Rightarrow> {} | Some S \<Rightarrow> S)"
    unfolding s0 by (simp add: Copier_copy_def c2)
  have b: "seen c2 = Some (c_seen s0)"
    using a c2 by simp
  have "dedup_inv (case seen c2 of None \<Rightarrow> {} | Some S \<Rightarrow> S) (exec sched s0)"
    unfolding s0 by (rule dedup_inv_exec) (rule dedup_inv_Copier_copy)
  then have "c_seen (exec sched s0)
             = c_seen s0 \<union> To ` set (enqueued (events (exec sched s0)))"
    using b by (simp add: dedup_inv_def)
  then show ?thesis
    using a b by (simp add: Copy_def st Let_def)
qed

section \<open>A pool without workers\<close>

lemma stuck_walk_step: "stuck s \<Longrightarrow> stuck (walk_step s)"
  apply (simp add: stuck_def)
  apply (elim conjE disjE)
    apply (simp_all add: walk_step_def walk_visit_def Lstat_def stat_result_def lookup_def
      node_at_def is_root_def readDirNames_def logged_def filepath_Clean_def filepath_Dir_def
      filepath_Base_def filepath_Join_def info_of_def Let_def)
  done

lemma stuck_step: "stuck s \<Longrightarrow> stuck (step a s)"
proof (cases a)
  case Walk
  assume "stuck s"
  then show ?thesis using Walk by (simp add: step_def stuck_walk_step)
next
  case CopyFiles
  assume "stuck s"
  then show ?thesis using CopyFiles
    by (cases "pool s")
       (auto simp add: step_def stuck_def copyFiles_step_def spawn_loop.simps Let_def)
next
  case (Worker i)
  assume "stuck s"
  then show ?thesis using Worker by (simp add: step_def stuck_def worker_step_def)
next
  case CollectErrors
  assume "stuck s"
  then show ?thesis using CollectErrors
    by (auto simp add: step_def stuck_def collectErrors_step_def)
qed

lemma stuck_exec: "stuck s \<Longrightarrow> stuck (exec sched s)"
  by (induction sched arbitrary: s) (simp_all add: stuck_step)

lemma no_worker_copy_start:
  "\<exists>c2 s0. Copy_start (fresh_copier\<lparr>Parallel := 1\<rparr>) source_fs ''from'' ''to''
             = DirectoryCopy c2 s0 \<and> stuck s0"
  by (simp add: eval_defs fresh_copier_def source_fs_def stuck_def)

lemma no_worker_copies_nothing:
  "lookup (snd (snd (Copy sched (fresh_copier\<lparr>Parallel := 1\<rparr>) source_fs ''from'' ''to'')))
     ''to/a'' = None
   \<and> fst (Copy sched (fresh_copier\<lparr>Parallel := 1\<rparr>) source_fs ''from'' ''to'')
       \<in> {None, Some None}"
proof -
  obtain c2 s0
    where st: "Copy_start (fresh_copier\<lparr>Parallel := 1\<rparr>) source_fs ''from'' ''to''
               = DirectoryCopy c2 s0"
      and "stuck s0"
    using no_worker_copy_start by blast
  then have "stuck (exec sched s0)"
    by (intro stuck_exec)
  then show ?thesis using st
    by (auto simp add: Copy_def Let_def stuck_def lookup_def node_at_def is_root_def filepath_Clean_def)
qed

text \<open>
  Claim C4 says that after a directory copy of regular files without clobber conflicts
  the two trees have no differences. With \<open>Parallel = 1\<close> the pool has no worker
  (claim C1): under every schedule \<open>to/a\<close> is never created and \<open>Copy\<close>, when it
  returns, returns nil; and it does return, once \<open>copyFiles\<close> has run its empty loop
  and closed the failure channel. The source holds \<open>from/a\<close>.
\<close>

theorem Copy_with_Parallel_1_copies_no_file:
  "(\<forall>sched.
      lookup (snd (snd (Copy sched (fresh_copier\<lparr>Parallel := 1\<rparr>) source_fs ''from'' ''to'')))
        ''to/a'' = None
      \<and> fst (Copy sched (fresh_copier\<lparr>Parallel := 1\<rparr>) source_fs ''from'' ''to'')
          \<in> {None, Some None})
   \<and> fst (Copy [CopyFiles, CopyFiles, CollectErrors] (fresh_copier\<lparr>Parallel := 1\<rparr>) source_fs
            ''from'' ''to'') = Some None
   \<and> lookup source_fs ''from/a'' = Some (FileNode 420 ''hi'')"
proof -
  have "fst (Copy [CopyFiles, CopyFiles, CollectErrors] (fresh_copier\<lparr>Parallel := 1\<rparr>) source_fs
               ''from'' ''to'') = Some None"
    by (simp add: eval_defs fresh_copier_def source_fs_def)
  moreover have "lookup source_fs ''from/a'' = Some (FileNode 420 ''hi'')"
    by (simp add: eval_defs source_fs_def)
  ultimately show ?thesis
    using no_worker_copies_nothing by blast
qed

text \<open>
  Claim C9 says that the destination tree does not depend on the parallelism, for 1, 4
  and 32. With \<open>Parallel = 1\<close> no schedule ever creates \<open>to/a\<close>; with \<open>Parallel = 4\<close>
  (three workers) \<open>Copy\<close> returns nil with \<open>to/a\<close> holding the source's bytes.
\<close>

theorem destination_depends_on_Parallel:
  "(\<forall>sched.
      lookup (snd (snd (Copy sched (fresh_copier\<lparr>Parallel := 1\<rparr>) source_fs ''from'' ''to'')))
        ''to/a'' = None)
   \<and> fst (Copy three_worker_run (fresh_copier\<lparr>Parallel := 4\<rparr>) source_fs ''from'' ''to'')
       = Some None
   \<and> lookup (snd (snd (Copy three_worker_run (fresh_copier\<lparr>Parallel := 4\<rparr>) source_fs
                        ''from'' ''to'')))
       ''to/a'' = Some (FileNode 420 ''hi'')"
proof -
  let ?c2 = "fresh_copier\<lparr>Parallel := 4, seen := Some {}\<rparr>"
  let ?s0 = "Copier_copy ?c2 started_fs ''from'' ''to''"
  have st: "Copy_start (fresh_copier\<lparr>Parallel := 4\<rparr>) source_fs ''from'' ''to''
            = DirectoryCopy ?c2 ?s0"
    by (simp add: eval_defs source_fs_def started_fs_def fresh_copier_def)
  have run: "returned (exec three_worker_run ?s0) = Some None
             \<and> lookup (c_fs (exec three_worker_run ?s0)) ''to/a'' = Some (FileNode 420 ''hi'')"
    by (simp add: eval_defs three_worker_run_def started_fs_def fresh_copier_def)
  have "fst (Copy three_worker_run (fresh_copier\<lparr>Parallel := 4\<rparr>) source_fs ''from'' ''to'')
          = Some None
        \<and> lookup (snd (snd (Copy three_worker_run (fresh_copier\<lparr>Parallel := 4\<rparr>) source_fs
                        ''from'' ''to'')))
            ''to/a'' = Some (FileNode 420 ''hi'')"
    using run by (simp add: Copy_def st Let_def)
  then show ?thesis
    using no_worker_copies_nothing by blast
qed

section \<open>A cleaned path stays as it is\<close>

lemma split_sep_not_Nil [simp]: "split_sep s \<noteq> []"
  by (induction s) (auto split: list.splits)

lemma split_sep_sep_free: "sep_free e \<Longrightarrow> split_sep e = [e]"
  by (induction e) (auto simp add: sep_free_def)

lemma split_sep_append:
  "sep_free e \<Longrightarrow> split_sep (e @ CHR ''/'' # rest) = e # split_sep rest"
  by (induction e) (auto simp add: sep_free_def)

lemma split_sep_join_sep:
  "es \<noteq> [] \<Longrightarrow> list_all sep_free es \<Longrightarrow> split_sep (join_sep es) = es"
proof (induction es rule: join_sep.induct)
  case 1
  then show ?case by simp
next
  case (2 e)
  then show ?case by (simp add: split_sep_sep_free)
next
  case (3 e v va)
  then show ?case by (simp add: split_sep_append)
qed

lemma sep_free_split_sep: "list_all sep_free (split_sep s)"
  by (induction s) (auto simp add: sep_free_def split: list.splits)

lemma sep_free_dotdot [simp]: "sep_free ''..''"
  by (simp add: sep_free_def)

lemma clean_elems_sep_free:
  "list_all sep_free out \<Longrightarrow> list_all sep_free es \<Longrightarrow> list_all sep_free (clean_elems r out es)"
proof (induction r out es rule: clean_elems.induct)
  case (1 rooted out)
  then show ?case by simp
next
  case (2 rooted out e es)
  then show ?case
    by (cases out) auto
qed

lemma dtn_snoc_normal:
  "dots_then_normal r xs \<Longrightarrow> normal e \<Longrightarrow> dots_then_normal r (xs @ [e])"
  by (induction xs) (auto simp add: normal_def)

lemma dtn_snoc_dots:
  "dots_then_normal r (xs @ [''..'']) \<longleftrightarrow> \<not> r \<and> list_all (\<lambda>x. x = ''..'') xs"
  by (induction xs) (auto simp add: normal_def)

lemma dtn_all_dots:
  "\<not> r \<Longrightarrow> list_all (\<lambda>x. x = ''..'') xs \<Longrightarrow> dots_then_normal r xs"
  by (induction xs) auto

lemma dtn_butlast: "dots_then_normal r (xs @ [x]) \<Longrightarrow> dots_then_normal r xs"
  by (induction xs) (auto simp add: normal_def split: if_splits)

lemma dtn_last_dots:
  "dots_then_normal r (xs @ [''..''] @ ys) \<Longrightarrow> \<not> r \<and> list_all (\<lambda>x. x = ''..'') xs"
  by (induction xs) (auto simp add: normal_def split: if_splits)
lemma dtn_mid_normal:
  "dots_then_normal r (xs @ e # es) \<Longrightarrow> e \<noteq> ''..'' \<Longrightarrow> normal e"
  by (induction xs) (auto split: if_splits)

lemma clean_elems_dtn:
  "dots_then_normal r (rev out) \<Longrightarrow> dots_then_normal r (clean_elems r out es)"
proof (induction r out es rule: clean_elems.induct)
  case (1 rooted out)
  then show ?case by simp
next
  case (2 rooted out e es)
  show ?case
  proof (cases "e = [] \<or> e = ''.''")
    case True
    with 2 show ?thesis by simp
  next
    case False
    show ?thesis
    proof (cases "e = ''..''")
      case dd: True
      show ?thesis
      proof (cases out)
        case Nil
        with 2 dd show ?thesis by simp
      next
        case (Cons x xs)
        show ?thesis
        proof (cases "x = ''..''")
          case True
          have "dots_then_normal rooted (rev xs @ [''..''])"
            using "2.prems" Cons True by simp
          then have "\<not> rooted \<and> list_all (\<lambda>x. x = ''..'') (rev xs)"
            using dtn_snoc_dots [of rooted "rev xs"] by blast
          then have nr: "\<not> rooted" and ad: "list_all (\<lambda>x. x = ''..'') (rev xs)"
            by simp_all
          have "list_all (\<lambda>x. x = ''..'') (rev (''..'' # out))"
            using ad Cons True by simp
          with nr have "dots_then_normal rooted (rev (''..'' # out))"
            by (rule dtn_all_dots)
          with 2 dd Cons True show ?thesis by simp
        next
          case nd: False
          have "dots_then_normal rooted (rev xs)"
            using "2.prems" Cons dtn_butlast [of rooted "rev xs" x] by simp
          with 2 dd Cons nd show ?thesis by simp
        qed
      qed
    next
      case nd: False
      have "normal e"
        using False nd by (simp add: normal_def)
      then have "dots_then_normal rooted (rev (e # out))"
        using "2.prems" by (simp add: dtn_snoc_normal)
      with 2 False nd show ?thesis by simp
    qed
  qed
qed

lemma clean_elems_fixed:
  "dots_then_normal r (rev out @ es) \<Longrightarrow> clean_elems r out es = rev out @ es"
proof (induction es arbitrary: out)
  case Nil
  then show ?case by simp
next
  case (Cons e es)
  have split: "rev out @ e # es = rev (e # out) @ es"
    by simp
  show ?case
  proof (cases "e = ''..''")
    case True
    have dots: "\<not> r \<and> list_all (\<lambda>x. x = ''..'') (rev out)"
      using Cons.prems True dtn_last_dots [of r "rev out" es] by simp
    have "clean_elems r out (e # es) = clean_elems r (e # out) es"
      using True dots by (cases out) auto
    also have "\<dots> = rev (e # out) @ es"
      using Cons.prems by (intro Cons.IH) simp
    finally show ?thesis by simp
  next
    case False
    have ne: "normal e"
      using Cons.prems False by (rule dtn_mid_normal)
    then have "clean_elems r out (e # es) = clean_elems r (e # out) es"
      using False by (auto simp add: normal_def)
    also have "\<dots> = rev (e # out) @ es"
      using Cons.prems by (intro Cons.IH) simp
    finally show ?thesis by simp
  qed
qed

lemma join_sep_first:
  "e \<noteq> [] \<Longrightarrow> take 1 (join_sep (e # es)) = take 1 e"
  by (cases es; cases e) simp_all

lemma dtn_first_nonempty:
  "dots_then_normal r (e # es) \<Longrightarrow> e \<noteq> []"
  by (auto simp add: normal_def split: if_splits)

lemma filepath_Clean_idem: "filepath_Clean (filepath_Clean p) = filepath_Clean p"
proof -
  define rooted where "rooted = (take 1 p = ''/'')"
  define E where "E = clean_elems rooted [] (split_sep p)"
  have dtn: "dots_then_normal rooted E"
    unfolding E_def by (rule clean_elems_dtn) simp
  have sf: "list_all sep_free E"
    unfolding E_def by (rule clean_elems_sep_free) (simp_all add: sep_free_split_sep)
  have fixed: "clean_elems rooted [] E = E"
    using clean_elems_fixed [of rooted "[]" E] dtn by simp
  have cp: "filepath_Clean p
            = (if (if rooted then ''/'' else []) @ join_sep E = [] then ''.''
               else (if rooted then ''/'' else []) @ join_sep E)"
    by (simp add: filepath_Clean_def rooted_def E_def Let_def)
  show ?thesis
  proof (cases rooted)
    case True
    have s: "filepath_Clean p = CHR ''/'' # join_sep E"
      using True by (simp add: cp)
    have "clean_elems True [] (split_sep (CHR ''/'' # join_sep E)) = E"
    proof (cases "E = []")
      case e: True
      then show ?thesis by simp
    next
      case False
      then have "split_sep (join_sep E) = E"
        using sf by (rule split_sep_join_sep)
      then show ?thesis using fixed True by simp
    qed
    then show ?thesis
      unfolding s by (simp add: filepath_Clean_def Let_def)
  next
    case False
    show ?thesis
    proof (cases E)
      case Nil
      then have "filepath_Clean p = ''.''"
        using False by (simp add: cp)
      then show ?thesis
        by (simp add: filepath_Clean_def Let_def)
    next
      case (Cons e es)
      have ne: "e \<noteq> []"
        using dtn Cons dtn_first_nonempty by blast
      have sfe: "sep_free e"
        using sf Cons by simp
      have j: "join_sep E \<noteq> []"
        using join_sep_first [OF ne, of es] ne Cons by (cases e) auto
      have s: "filepath_Clean p = join_sep E"
        using False j by (simp add: cp)
      have t1: "take 1 (join_sep E) \<noteq> ''/''"
        using join_sep_first [OF ne, of es] ne sfe Cons
        by (cases e) (auto simp add: sep_free_def)
      have sp: "split_sep (join_sep E) = E"
        using sf Cons by (intro split_sep_join_sep) simp_all
      show ?thesis
        unfolding s using t1 sp fixed False j
        by (simp add: filepath_Clean_def Let_def)
    qed
  qed
qed

section \<open>What the filesystem calls change\<close>

lemma map_of_put_node: "map_of (put_node ns q n) k = (if k = q then Some n else map_of ns k)"
  by (induction ns q n rule: put_node.induct) auto

lemma node_at_logged [simp]: "node_at (logged ev fs) q = node_at fs q"
  by (simp add: node_at_def logged_def)

lemma file_at_logged [simp]: "file_at (logged ev fs) q = file_at fs q"
  by (simp add: file_at_def)

lemma node_at_put:
  "node_at (fs\<lparr>nodes := put_node (nodes fs) k n\<rparr>) q
     = (if is_root q then Some (DirNode 493) else if q = k then Some n else node_at fs q)"
  by (simp add: node_at_def map_of_put_node)

lemma file_at_put_other:
  "q \<noteq> k \<Longrightarrow> file_at (fs\<lparr>nodes := put_node (nodes fs) k n\<rparr>) q = file_at fs q"
  by (simp add: file_at_def node_at_def map_of_put_node)

lemma file_at_put_file:
  "file_at (fs\<lparr>nodes := put_node (nodes fs) k (FileNode m c)\<rparr>) k
     = (if is_root k then None else Some (m, c))"
  by (simp add: file_at_def node_at_def map_of_put_node)

lemma file_at_node: "file_at fs q = Some (m, c) \<longleftrightarrow> node_at fs q = Some (FileNode m c)"
  by (auto simp add: file_at_def split: option.splits node.splits)

lemma file_at_root: "is_root q \<Longrightarrow> file_at fs q = None"
  by (simp add: file_at_def node_at_def)

lemma mkdir_chain_file:
  "mkdir_chain ns dn qs perm = (r, ns') \<Longrightarrow>
     (case map_of ns' k of Some (FileNode m c) \<Rightarrow> Some (m, c) | _ \<Rightarrow> None)
   = (case map_of ns k of Some (FileNode m c) \<Rightarrow> Some (m, c) | _ \<Rightarrow> None)"
proof (induction ns dn qs perm arbitrary: r ns' rule: mkdir_chain.induct)
  case (1 ns dn perm)
  then show ?case by simp
next
  case (2 ns dn q qs perm)
  show ?case
  proof (cases "q \<in> set dn")
    case True
    with 2 show ?thesis by simp
  next
    case False
    show ?thesis
    proof (cases "map_of ns q")
      case None
      with False 2 show ?thesis
        by (auto simp add: map_of_put_node split: option.splits node.splits)
    next
      case (Some n)
      with False 2 show ?thesis
        by (cases n) auto
    qed
  qed
qed

lemma mkdir_chain_keeps:
  "mkdir_chain ns dn qs perm = (r, ns') \<Longrightarrow> map_of ns k \<noteq> None \<Longrightarrow> map_of ns' k \<noteq> None"
proof (induction ns dn qs perm arbitrary: r ns' rule: mkdir_chain.induct)
  case (1 ns dn perm)
  then show ?case by simp
next
  case (2 ns dn q qs perm)
  show ?case
  proof (cases "q \<in> set dn")
    case True
    with 2 show ?thesis by simp
  next
    case False
    show ?thesis
    proof (cases "map_of ns q")
      case None
      with False 2 show ?thesis
        by (auto simp add: map_of_put_node split: if_splits)
    next
      case (Some n)
      with False 2 show ?thesis
        by (cases n) auto
    qed
  qed
qed

lemma node_at_MkdirAll_keeps:
  assumes "node_at fs q \<noteq> None"
  shows "node_at (snd (MkdirAll fs p perm)) q \<noteq> None"
proof -
  obtain r ns' where mk: "mkdir_chain (nodes fs) (denied fs) (path_chain p) perm = (r, ns')"
    by (cases "mkdir_chain (nodes fs) (denied fs) (path_chain p) perm")
  show ?thesis
    using mkdir_chain_keeps [OF mk, of q] assms
    by (auto simp add: MkdirAll_def mk node_at_def logged_def split: if_splits)
qed

lemma file_at_MkdirAll: "file_at (snd (MkdirAll fs p perm)) q = file_at fs q"
proof -
  obtain r ns' where mk: "mkdir_chain (nodes fs) (denied fs) (path_chain p) perm = (r, ns')"
    by (cases "mkdir_chain (nodes fs) (denied fs) (path_chain p) perm")
  show ?thesis
    using mkdir_chain_file [OF mk, of q]
    by (simp add: MkdirAll_def mk file_at_def node_at_def logged_def)
qed

text \<open>What \<open>OpenFile\<close> does to the store: nothing, or one file put at the cleaned path.\<close>

lemma OpenFile_effect:
  obtains (same) "snd (OpenFile fs p flags perm) = logged (OpOpenFile p) fs"
  | (created) "lookup fs p = None"
      and "snd (OpenFile fs p flags perm)
        = (logged (OpOpenFile p) fs)\<lparr>nodes := put_node (nodes fs) (filepath_Clean p) (FileNode perm [])\<rparr>"
  | (truncated) m c where "lookup fs p = Some (FileNode m c)"
      and "snd (OpenFile fs p flags perm)
        = (logged (OpOpenFile p) fs)\<lparr>nodes := put_node (nodes fs) (filepath_Clean p) (FileNode m [])\<rparr>"
proof (cases "filepath_Clean p \<in> set (denied fs)")
  case True
  then have "snd (OpenFile fs p flags perm) = logged (OpOpenFile p) fs"
    by (simp add: OpenFile_def Let_def)
  then show ?thesis by (rule same)
next
  case False
  show ?thesis
  proof (cases "lookup fs p")
    case None
    show ?thesis
    proof (cases "O_CREATE \<in> set flags")
      case True
      show ?thesis
      proof (cases "node_at fs (filepath_Dir (filepath_Clean p))")
        case None': None
        then have "snd (OpenFile fs p flags perm) = logged (OpOpenFile p) fs"
          using False None True by (simp add: OpenFile_def Let_def)
        then show ?thesis by (rule same)
      next
        case (Some n)
        show ?thesis
        proof (cases n)
          case (FileNode m c)
          then have "snd (OpenFile fs p flags perm) = logged (OpOpenFile p) fs"
            using False None True Some by (simp add: OpenFile_def Let_def)
          then show ?thesis by (rule same)
        next
          case (DirNode m)
          then have "snd (OpenFile fs p flags perm)
             = (logged (OpOpenFile p) fs)\<lparr>nodes := put_node (nodes fs) (filepath_Clean p) (FileNode perm [])\<rparr>"
            using False None True Some by (simp add: OpenFile_def Let_def)
          with None show ?thesis by (rule created)
        qed
      qed
    next
      case F2: False
      then have "snd (OpenFile fs p flags perm) = logged (OpOpenFile p) fs"
        using False None by (simp add: OpenFile_def Let_def)
      then show ?thesis by (rule same)
    qed
  next
    case (Some n)
    show ?thesis
    proof (cases n)
      case (FileNode m c)
      show ?thesis
      proof (cases "O_TRUNC \<in> set flags")
        case True
        then have "snd (OpenFile fs p flags perm)
             = (logged (OpOpenFile p) fs)\<lparr>nodes := put_node (nodes fs) (filepath_Clean p) (FileNode m [])\<rparr>"
          using False Some FileNode by (simp add: OpenFile_def Let_def)
        moreover have "lookup fs p = Some (FileNode m c)"
          using Some FileNode by simp
        ultimately show ?thesis by (intro truncated)
      next
        case F3: False
        then have "snd (OpenFile fs p flags perm) = logged (OpOpenFile p) fs"
          using False Some FileNode by (simp add: OpenFile_def Let_def)
        then show ?thesis by (rule same)
      qed
    next
      case (DirNode m)
      then have "snd (OpenFile fs p flags perm) = logged (OpOpenFile p) fs"
        using False Some by (simp add: OpenFile_def Let_def)
      then show ?thesis by (rule same)
    qed
  qed
qed

lemma OpenFile_handle:
  assumes "OpenFile fs p flags perm = (Inr h, fs')"
  shows "h = filepath_Clean p"
proof -
  have "fst (OpenFile fs p flags perm) = Inr (filepath_Clean p)
        \<or> (\<exists>e. fst (OpenFile fs p flags perm) = Inl e)"
    unfolding OpenFile_def Let_def
    by (simp split: option.split node.split)
  with assms show ?thesis by auto
qed

lemma file_at_logged_put_other:
  "q \<noteq> k \<Longrightarrow> file_at ((logged ev fs)\<lparr>nodes := put_node (nodes fs) k n\<rparr>) q = file_at fs q"
  by (simp add: file_at_def node_at_def map_of_put_node logged_def)

lemma file_at_logged_put_file:
  "file_at ((logged ev fs)\<lparr>nodes := put_node (nodes fs) k (FileNode m c)\<rparr>) k
     = (if is_root k then None else Some (m, c))"
  by (simp add: file_at_def node_at_def map_of_put_node logged_def)

lemma file_at_OpenFile_other:
  "q \<noteq> filepath_Clean p \<Longrightarrow> file_at (snd (OpenFile fs p flags perm)) q = file_at fs q"
  by (rule OpenFile_effect [of fs p flags perm]) (simp_all add: file_at_logged_put_other)

lemma file_at_OpenFile_keeps:
  assumes "file_at fs q \<noteq> None"
  shows "file_at (snd (OpenFile fs p flags perm)) q \<noteq> None"
proof (cases "q = filepath_Clean p")
  case False
  then show ?thesis using assms by (simp add: file_at_OpenFile_other)
next
  case True
  have nr: "\<not> is_root q"
    using assms file_at_root [of q fs] by auto
  show ?thesis
    by (rule OpenFile_effect [of fs p flags perm])
       (use assms nr True in \<open>simp_all add: file_at_logged_put_file\<close>)
qed


text \<open>What \<open>io_Copy\<close> does to the store.\<close>

lemma io_Copy_effect:
  obtains e where "io_Copy fs dst src = (Inl e, logged (OpWrite dst) fs)"
  | m c m' c' where "node_at fs src = Some (FileNode m c)"
      and "node_at fs dst = Some (FileNode m' c')"
      and "io_Copy fs dst src
           = (Inr (length c),
              (logged (OpWrite dst) fs)\<lparr>nodes :=
                 put_node (nodes fs) dst (FileNode m' (c @ drop (length c) c'))\<rparr>)"
proof (cases "node_at fs src")
  case None
  then have "io_Copy fs dst src = (Inl ErrNotExist, logged (OpWrite dst) fs)"
    by (simp add: io_Copy_def Let_def)
  then show ?thesis by (rule that(1))
next
  case (Some n)
  show ?thesis
  proof (cases n)
    case (DirNode m)
    then have "io_Copy fs dst src = (Inl ErrIsDir, logged (OpWrite dst) fs)"
      using Some by (simp add: io_Copy_def Let_def)
    then show ?thesis by (rule that(1))
  next
    case (FileNode m c)
    show ?thesis
    proof (cases "node_at fs dst")
      case None
      then have "io_Copy fs dst src = (Inl ErrNotExist, logged (OpWrite dst) fs)"
        using Some FileNode by (simp add: io_Copy_def Let_def)
      then show ?thesis by (rule that(1))
    next
      case Some': (Some n')
      show ?thesis
      proof (cases n')
        case (DirNode m')
        then have "io_Copy fs dst src = (Inl ErrIsDir, logged (OpWrite dst) fs)"
          using Some FileNode Some' by (simp add: io_Copy_def Let_def)
        then show ?thesis by (rule that(1))
      next
        case F': (FileNode m' c')
        have "io_Copy fs dst src
           = (Inr (length c),
              (logged (OpWrite dst) fs)\<lparr>nodes :=
                 put_node (nodes fs) dst (FileNode m' (c @ drop (length c) c'))\<rparr>)"
          using Some FileNode Some' F' by (simp add: io_Copy_def Let_def)
        with Some FileNode Some' F' show ?thesis
          by (intro that(2) [of m c m' c']) simp_all
      qed
    qed
  qed
qed

lemma file_at_io_Copy_other:
  "q \<noteq> dst \<Longrightarrow> file_at (snd (io_Copy fs dst src)) q = file_at fs q"
  by (rule io_Copy_effect [of fs dst src]) (simp_all add: file_at_logged_put_other)

lemma file_at_io_Copy_keeps:
  assumes "file_at fs q \<noteq> None"
  shows "file_at (snd (io_Copy fs dst src)) q \<noteq> None"
proof (cases "q = dst")
  case False
  then show ?thesis using assms by (simp add: file_at_io_Copy_other)
next
  case True
  have nr: "\<not> is_root q"
    using assms file_at_root [of q fs] by auto
  show ?thesis
    by (rule io_Copy_effect [of fs dst src])
       (use assms nr True in \<open>simp_all add: file_at_logged_put_file\<close>)
qed

lemma file_at_io_Copy_done:
  assumes "io_Copy fs dst src = (Inr n, fs')"
  shows "\<exists>m c m' c'. file_at fs src = Some (m, c) \<and> file_at fs dst = Some (m', c')
           \<and> file_at fs' dst = Some (m', c @ drop (length c) c')"
proof (rule io_Copy_effect [of fs dst src])
  fix e
  assume "io_Copy fs dst src = (Inl e, logged (OpWrite dst) fs)"
  with assms show ?thesis by simp
next
  fix m c m' c'
  assume src: "node_at fs src = Some (FileNode m c)"
    and dst: "node_at fs dst = Some (FileNode m' c')"
    and eq: "io_Copy fs dst src
           = (Inr (length c),
              (logged (OpWrite dst) fs)\<lparr>nodes :=
                 put_node (nodes fs) dst (FileNode m' (c @ drop (length c) c'))\<rparr>)"
  have nr: "\<not> is_root dst"
    using dst by (auto simp add: node_at_def)
  have "fs' = (logged (OpWrite dst) fs)\<lparr>nodes :=
                 put_node (nodes fs) dst (FileNode m' (c @ drop (length c) c'))\<rparr>"
    using assms eq by auto
  then have "file_at fs' dst = Some (m', c @ drop (length c) c')"
    using nr by (simp add: file_at_logged_put_file)
  moreover have "file_at fs src = Some (m, c)" "file_at fs dst = Some (m', c')"
    using src dst by (simp_all add: file_at_node)
  ultimately show ?thesis by blast
qed


text \<open>\<open>copyFile\<close>: the store after it, seen through \<open>file_at\<close>.\<close>

lemma Open_snd: "snd (Open fs p) = logged (OpOpen p) fs"
  by (simp add: Open_def split: option.splits)

lemma File_Stat_snd: "snd (File_Stat fs h) = logged (OpFileStat h) fs"
  by (simp add: File_Stat_def split: option.splits)

lemma Open_handle: "Open fs p = (Inr h, fs') \<Longrightarrow> h = filepath_Clean p"
  by (auto simp add: Open_def split: if_splits option.splits)

lemma copyFile_stages:
  obtains (failed) e fs' where "copyFile fs from to = (Some e, fs')"
      and "\<And>q. q \<noteq> filepath_Clean to \<Longrightarrow> file_at fs' q = file_at fs q"
      and "\<And>q. file_at fs q \<noteq> None \<Longrightarrow> file_at fs' q \<noteq> None"
  | (copied) fs' where "copyFile fs from to = (None, fs')"
      and "\<And>q. q \<noteq> filepath_Clean to \<Longrightarrow> file_at fs' q = file_at fs q"
      and "\<And>q. file_at fs q \<noteq> None \<Longrightarrow> file_at fs' q \<noteq> None"
      and "file_at fs' (filepath_Clean to) \<noteq> None"
      and "file_at fs (filepath_Clean to) = None \<Longrightarrow>
             file_at fs' (filepath_Clean to) = file_at fs (filepath_Clean from)"
proof -
  obtain r1 fs1 where o1: "Open fs from = (r1, fs1)"
    by (cases "Open fs from")
  have fs1: "fs1 = logged (OpOpen from) fs"
    using Open_snd [of fs "from"] o1 by simp
  show ?thesis
  proof (cases r1)
    case (Inl e)
    then have "copyFile fs from to = (Some (Wrap (''opening '' @ from) (Cause e)), fs1)"
      using o1 by (simp add: copyFile_def)
    then show ?thesis
      by (rule failed) (simp_all add: fs1)
  next
    case (Inr fromFile)
    have h1: "fromFile = filepath_Clean from"
      using o1 Inr Open_handle by blast
    obtain r2 fs2 where o2: "File_Stat fs1 fromFile = (r2, fs2)"
      by (cases "File_Stat fs1 fromFile")
    have fs2: "fs2 = logged (OpFileStat fromFile) fs1"
      using File_Stat_snd [of fs1 fromFile] o2 by simp
    show ?thesis
    proof (cases r2)
      case Inl2: (Inl e)
      then have "copyFile fs from to = (Some (Wrap ''reading file metadata'' (Cause e)), fs2)"
        using o1 Inr o2 by (simp add: copyFile_def)
      then show ?thesis
        by (rule failed) (simp_all add: fs1 fs2)
    next
      case Inr2: (Inr fromFi)
      obtain r3 fs3 where o3: "MkdirAll fs2 (filepath_Dir to) (Mode fromFi) = (r3, fs3)"
        by (cases "MkdirAll fs2 (filepath_Dir to) (Mode fromFi)")
      have fs3: "file_at fs3 q = file_at fs q" for q
        using file_at_MkdirAll [of fs2 "filepath_Dir to" "Mode fromFi" q] o3
        by (simp add: fs1 fs2)
      show ?thesis
      proof (cases r3)
        case (Some e)
        then have "copyFile fs from to
                   = (Some (Wrap (''preparing directories for '' @ to) (Cause e)), fs3)"
          using o1 Inr o2 Inr2 o3 by (simp add: copyFile_def)
        then show ?thesis
          by (rule failed) (simp_all add: fs3)
      next
        case None
        obtain r4 fs4 where o4: "OpenFile fs3 to [O_CREATE, O_RDWR] (Mode fromFi) = (r4, fs4)"
          by (cases "OpenFile fs3 to [O_CREATE, O_RDWR] (Mode fromFi)")
        have fs4o: "q \<noteq> filepath_Clean to \<Longrightarrow> file_at fs4 q = file_at fs q" for q
          using file_at_OpenFile_other [of q to fs3 "[O_CREATE, O_RDWR]" "Mode fromFi"] o4
          by (simp add: fs3)
        have fs4k: "file_at fs q \<noteq> None \<Longrightarrow> file_at fs4 q \<noteq> None" for q
          using file_at_OpenFile_keeps [of fs3 q to "[O_CREATE, O_RDWR]" "Mode fromFi"] o4
          by (simp add: fs3)
        show ?thesis
        proof (cases r4)
          case (Inl e)
          then have "copyFile fs from to = (Some (Wrap (''creating '' @ to) (Cause e)), fs4)"
            using o1 Inr o2 Inr2 o3 None o4 by (simp add: copyFile_def)
          then show ?thesis
            by (rule failed) (simp_all add: fs4o fs4k)
        next
          case Inr4: (Inr toFile)
          have h4: "toFile = filepath_Clean to"
            using o4 Inr4 OpenFile_handle by blast
          obtain r5 fs5 where o5: "io_Copy fs4 toFile fromFile = (r5, fs5)"
            by (cases "io_Copy fs4 toFile fromFile")
          have fs5o: "q \<noteq> filepath_Clean to \<Longrightarrow> file_at fs5 q = file_at fs q" for q
            using file_at_io_Copy_other [of q toFile fs4 fromFile] o5 h4
            by (simp add: fs4o)
          have fs5k: "file_at fs q \<noteq> None \<Longrightarrow> file_at fs5 q \<noteq> None" for q
            using file_at_io_Copy_keeps [of fs4 q toFile fromFile] o5 fs4k [of q]
            by simp
          show ?thesis
          proof (cases r5)
            case (Inl e)
            then have "copyFile fs from to
               = (Some (Wrap (''copying file from '' @ from @ '' to '' @ to) (Cause e)), fs5)"
              using o1 Inr o2 Inr2 o3 None o4 Inr4 o5 by (simp add: copyFile_def)
            then show ?thesis
              by (rule failed) (simp_all add: fs5o fs5k)
          next
            case Inr5: (Inr n)
            have cf: "copyFile fs from to = (None, fs5)"
              using o1 Inr o2 Inr2 o3 None o4 Inr4 o5 Inr5 by (simp add: copyFile_def)
            have io: "io_Copy fs4 (filepath_Clean to) (filepath_Clean from) = (Inr n, fs5)"
              using o5 Inr5 h1 h4 by simp
            have present: "file_at fs5 (filepath_Clean to) \<noteq> None"
              using file_at_io_Copy_done [OF io] by auto
            have fresh: "file_at fs5 (filepath_Clean to) = file_at fs (filepath_Clean from)"
              if absent: "file_at fs (filepath_Clean to) = None"
            proof -
              obtain m c m' c' where s4: "file_at fs4 (filepath_Clean from) = Some (m, c)"
                and d4: "file_at fs4 (filepath_Clean to) = Some (m', c')"
                and d5: "file_at fs5 (filepath_Clean to) = Some (m', c @ drop (length c) c')"
                using file_at_io_Copy_done [OF io] by blast
              have nr: "\<not> is_root (filepath_Clean to)"
                using d4 file_at_root [of "filepath_Clean to" fs4] by auto
              have a3: "file_at fs3 (filepath_Clean to) = None"
                using absent by (simp add: fs3)
              have fs4: "fs4 = snd (OpenFile fs3 to [O_CREATE, O_RDWR] (Mode fromFi))"
                using o4 by simp
              have made: "lookup fs3 to = None \<and> m' = Mode fromFi \<and> c' = []"
              proof (rule OpenFile_effect [of fs3 to "[O_CREATE, O_RDWR]" "Mode fromFi"])
                assume "snd (OpenFile fs3 to [O_CREATE, O_RDWR] (Mode fromFi))
                        = logged (OpOpenFile to) fs3"
                then have "file_at fs4 (filepath_Clean to) = None"
                  using a3 by (simp add: fs4)
                with d4 show ?thesis by simp
              next
                assume l3: "lookup fs3 to = None"
                  and "snd (OpenFile fs3 to [O_CREATE, O_RDWR] (Mode fromFi))
                       = (logged (OpOpenFile to) fs3)\<lparr>nodes :=
                            put_node (nodes fs3) (filepath_Clean to) (FileNode (Mode fromFi) [])\<rparr>"
                then have "file_at fs4 (filepath_Clean to) = Some (Mode fromFi, [])"
                  using nr by (simp add: fs4 file_at_logged_put_file)
                with d4 l3 show ?thesis by simp
              next
                fix k d
                assume "lookup fs3 to = Some (FileNode k d)"
                then have "file_at fs3 (filepath_Clean to) = Some (k, d)"
                  by (simp add: lookup_def file_at_node)
                with a3 show ?thesis by simp
              qed
              have ne: "filepath_Clean from \<noteq> filepath_Clean to"
              proof
                assume same: "filepath_Clean from = filepath_Clean to"
                obtain n where "lookup fs from = Some n"
                  using o1 Inr by (auto simp add: Open_def split: if_splits option.splits)
                then have "node_at fs2 (filepath_Clean to) \<noteq> None"
                  using same by (simp add: lookup_def fs1 fs2)
                then have "node_at fs3 (filepath_Clean to) \<noteq> None"
                  using node_at_MkdirAll_keeps [of fs2 "filepath_Clean to" "filepath_Dir to" "Mode fromFi"] o3
                  by simp
                with made show False
                  by (simp add: lookup_def)
              qed
              have s0: "file_at fs (filepath_Clean from) = Some (m, c)"
                using s4 fs4o [OF ne] by simp
              have n1: "node_at fs1 fromFile = Some (FileNode m c)"
                using s0 by (simp add: h1 fs1 file_at_node [symmetric])
              have md: "Mode fromFi = m"
                using o2 Inr2 n1 by (auto simp add: File_Stat_def info_of_def)
              show ?thesis
                using d5 made md s0 by simp
            qed
            show ?thesis
              by (rule copied [OF cf fs5o fs5k present fresh])
          qed
        qed
      qed
    qed
  qed
qed

section \<open>Error collection\<close>











section \<open>The files a directory copy leaves\<close>

lemma Lstat_snd: "snd (Lstat fs p) = logged (OpLstat p) fs"
  by (simp add: Lstat_def)

lemma readDirNames_snd: "snd (readDirNames fs p) = logged (OpReadDir p) fs"
  by (simp add: readDirNames_def Let_def)

lemma walk_visit_file_at: "file_at (c_fs (walk_visit s path rest)) q = file_at (c_fs s) q"
proof -
  obtain r1 fs1 where l: "Lstat (c_fs s) path = (r1, fs1)"
    by (cases "Lstat (c_fs s) path")
  have f1: "file_at fs1 q = file_at (c_fs s) q"
    using Lstat_snd [of "c_fs s" path] l by simp
  obtain r2 fs2 where r: "readDirNames fs1 path = (r2, fs2)"
    by (cases "readDirNames fs1 path")
  have f2: "file_at fs2 q = file_at (c_fs s) q"
    using readDirNames_snd [of fs1 path] r f1 by simp
  show ?thesis
    using l r f1 f2 by (simp add: walk_visit_def Let_def split: sum.splits)
qed

lemma walk_step_file_at: "file_at (c_fs (walk_step s)) q = file_at (c_fs s) q"
  by (simp add: walk_step_def walk_visit_file_at split: walk_state.splits list.splits)

lemma walk_visit_transferred:
  "transferred (events (walk_visit s path rest)) = transferred (events s)"
  by (simp add: walk_visit_def Let_def split: sum.splits prod.splits)

lemma walk_step_transferred: "transferred (events (walk_step s)) = transferred (events s)"
  by (simp add: walk_step_def walk_visit_transferred split: walk_state.splits list.splits)

lemma walk_visit_walk_to: "walk_to (walk_visit s path rest) = walk_to s"
  by (simp add: walk_visit_def Let_def split: sum.splits prod.splits)

lemma walk_step_walk_to: "walk_to (walk_step s) = walk_to s"
  by (simp add: walk_step_def walk_visit_walk_to split: walk_state.splits list.splits)

lemma walk_visit_enqueued:
  "j \<in> set (enqueued (events (walk_visit s path rest))) \<Longrightarrow>
     j \<in> set (enqueued (events s)) \<or> (\<exists>x. To j = filepath_Join (walk_to s) x)"
  by (auto simp add: walk_visit_def Let_def split: sum.splits prod.splits if_splits)

lemma walk_step_enqueued:
  "j \<in> set (enqueued (events (walk_step s))) \<Longrightarrow>
     j \<in> set (enqueued (events s)) \<or> (\<exists>x. To j = filepath_Join (walk_to s) x)"
  by (auto simp add: walk_step_def dest: walk_visit_enqueued
      split: walk_state.splits list.splits if_splits)

lemma filepath_Join_clean:
  "a \<noteq> [] \<Longrightarrow> filepath_Clean (filepath_Join a b) = filepath_Join a b"
  by (simp add: filepath_Join_def filepath_Clean_idem)

lemma written_walk_step: "written (walk_step s) = written s"
  by (simp add: written_def walk_step_transferred)

lemma fs_inv_walk_step:
  assumes inv: "fs_inv fs0 s"
  shows "fs_inv fs0 (walk_step s)"
proof -
  have clean: "filepath_Clean (To j) = To j"
    if "walk_to s \<noteq> []" and "j \<in> set (enqueued (events (walk_step s)))" for j
  proof -
    from walk_step_enqueued [OF that(2)]
    show ?thesis
    proof
      assume "j \<in> set (enqueued (events s))"
      then show ?thesis using inv that(1) by (simp add: fs_inv_def)
    next
      assume "\<exists>x. To j = filepath_Join (walk_to s) x"
      then show ?thesis using that(1) by (auto simp add: filepath_Join_clean)
    qed
  qed
  show ?thesis
    unfolding fs_inv_def written_walk_step walk_step_file_at walk_step_transferred
      walk_step_walk_to
    using inv clean by (simp add: fs_inv_def)
qed

lemma fs_inv_copyFiles_step: "fs_inv fs0 s \<Longrightarrow> fs_inv fs0 (copyFiles_step s)"
  by (simp add: fs_inv_def written_def copyFiles_step_def Let_def split: pool_state.splits)

lemma fs_inv_collectErrors_step: "fs_inv fs0 s \<Longrightarrow> fs_inv fs0 (collectErrors_step s)"
  by (simp add: fs_inv_def written_def collectErrors_step_def)

lemma busy_member:
  assumes "i < length ws" and "ws ! i = Busy j"
  shows "j \<in># sum_list (map busy ws)"
proof -
  have "sum_list (map busy (ws[i := Idle])) + busy (ws ! i) = sum_list (map busy ws) + busy Idle"
    using assms(1) by (rule sum_list_update_mset)
  then have "sum_list (map busy ws) = add_mset j (sum_list (map busy (ws[i := Idle])))"
    using assms(2) by simp
  then show ?thesis by simp
qed

lemma transferred_enqueued:
  assumes "dedup_inv S0 s" and "(j, r) \<in> set (transferred (events s))"
  shows "j \<in> set (enqueued (events s))"
proof -
  have "j \<in># mset (map fst (transferred (events s)))"
    using assms(2) by (auto simp add: image_iff intro: bexI [of _ "(j, r)"])
  then have "j \<in># mset (map fst (transferred (events s))) + in_flight s"
    by simp
  moreover have "mset (map fst (transferred (events s))) + in_flight s
                 = mset (enqueued (events s))"
    using assms(1) by (simp add: dedup_inv_def)
  ultimately have "j \<in># mset (enqueued (events s))"
    by (simp only:)
  then show ?thesis by simp
qed

lemma in_flight_fresh:
  assumes inv: "dedup_inv S0 s" and i: "i < length (workers s)" and b: "workers s ! i = Busy j2"
  shows "j2 \<in> set (enqueued (events s))"
    and "(j, r) \<in> set (transferred (events s)) \<Longrightarrow> To j \<noteq> To j2"
proof -
  let ?T = "mset (map fst (transferred (events s)))"
  have eq: "?T + in_flight s = mset (enqueued (events s))"
    and dist: "distinct (map To (enqueued (events s)))"
    using inv by (simp_all add: dedup_inv_def)
  have fl: "j2 \<in># in_flight s"
    using busy_member [OF i b] by (simp add: in_flight_def)
  then have "j2 \<in># mset (enqueued (events s))"
    unfolding eq [symmetric] by simp
  then show "j2 \<in> set (enqueued (events s))" by simp
  show "To j \<noteq> To j2" if mem: "(j, r) \<in> set (transferred (events s))"
  proof
    assume same: "To j = To j2"
    have "j \<in># ?T"
      using mem by (auto simp add: image_iff intro: bexI [of _ "(j, r)"])
    then obtain A where A: "?T = add_mset j A"
      by (meson multi_member_split)
    obtain B where B: "in_flight s = add_mset j2 B"
      using fl by (meson multi_member_split)
    have "mset (enqueued (events s)) = add_mset j (add_mset j2 (A + B))"
      unfolding eq [symmetric] A B by simp
    then have "mset (map To (enqueued (events s)))
               = add_mset (To j2) (add_mset (To j2) (image_mset To (A + B)))"
      using same by (metis image_mset_add_mset mset_map)
    then have "2 \<le> count (mset (map To (enqueued (events s)))) (To j2)"
      by simp
    moreover have "count (mset (map To (enqueued (events s)))) (To j2) \<le> 1"
      using dist unfolding distinct_count_atmost_1 by (metis order_refl zero_le_one)
    ultimately show False by simp
  qed
qed

lemma fs_inv_cong:
  "c_fs s' = c_fs s \<Longrightarrow> events s' = events s \<Longrightarrow> walk_to s' = walk_to s \<Longrightarrow>
     fs_inv fs0 s' = fs_inv fs0 s"
  by (simp add: fs_inv_def written_def)

lemma fs_inv_transfer:
  assumes dinv: "dedup_inv S0 s" and inv: "fs_inv fs0 s"
    and i: "i < length (workers s)" and b: "workers s ! i = Busy j2"
    and cf: "copyFile (c_fs s) (From j2) (To j2) = (r, fs')"
    and s': "c_fs s' = fs'" "events s' = events s @ [Transferred j2 r]" "walk_to s' = walk_to s"
  shows "fs_inv fs0 s'"
proof -
  let ?d = "filepath_Clean (To j2)"
  have tr: "transferred (events s') = transferred (events s) @ [(j2, r)]"
    and en: "enqueued (events s') = enqueued (events s)"
    by (simp_all add: s')
  have wr: "written s' = insert ?d (written s)"
    by (simp add: written_def tr)
  have F1: "file_at (c_fs s) q = file_at fs0 q" if "q \<notin> written s" for q
    using inv that by (simp add: fs_inv_def)
  have other: "file_at fs' q = file_at (c_fs s) q" if "q \<noteq> ?d" for q
    by (rule copyFile_stages [of "c_fs s" "From j2" "To j2"]) (use cf that in auto)
  have keeps: "file_at fs' q \<noteq> None" if "file_at (c_fs s) q \<noteq> None" for q
    by (rule copyFile_stages [of "c_fs s" "From j2" "To j2"]) (use cf that in auto)
  have present: "file_at fs' ?d \<noteq> None" if "r = None"
    by (rule copyFile_stages [of "c_fs s" "From j2" "To j2"]) (use cf that in auto)
  have fresh: "file_at fs' ?d = file_at (c_fs s) (filepath_Clean (From j2))"
    if "r = None" and "file_at (c_fs s) ?d = None"
    by (rule copyFile_stages [of "c_fs s" "From j2" "To j2"]) (use cf that in auto)
  have G1: "file_at (c_fs s') q = file_at fs0 q" if "q \<notin> written s'" for q
    using that other [of q] F1 [of q] by (simp add: wr s')
  have G3: "file_at (c_fs s') (filepath_Clean (To j)) \<noteq> None"
    if "(j, None) \<in> set (transferred (events s'))" for j
  proof (cases "(j, None) \<in> set (transferred (events s))")
    case True
    then have "file_at (c_fs s) (filepath_Clean (To j)) \<noteq> None"
      using inv by (simp add: fs_inv_def)
    then show ?thesis by (simp add: s' keeps)
  next
    case False
    then have "j = j2" "r = None"
      using that by (simp_all add: tr)
    then show ?thesis by (simp add: s' present)
  qed
  have G2: "(\<forall>j \<in> set (enqueued (events s')). filepath_Clean (To j) = To j)
      \<and> (\<forall>j. (j, None) \<in> set (transferred (events s')) \<longrightarrow>
             file_at fs0 (filepath_Clean (To j)) = None \<longrightarrow>
             filepath_Clean (From j) \<notin> written s' \<longrightarrow>
             file_at (c_fs s') (filepath_Clean (To j)) = file_at fs0 (filepath_Clean (From j)))"
    if to: "walk_to s \<noteq> []"
  proof -
    have K: "filepath_Clean (To j) = To j" if "j \<in> set (enqueued (events s))" for j
      using inv to that by (simp add: fs_inv_def)
    have F2: "file_at (c_fs s) (filepath_Clean (To j)) = file_at fs0 (filepath_Clean (From j))"
      if "(j, None) \<in> set (transferred (events s))"
        and "file_at fs0 (filepath_Clean (To j)) = None"
        and "filepath_Clean (From j) \<notin> written s" for j
      using inv to that by (simp add: fs_inv_def)
    have d2: "?d = To j2"
      using K in_flight_fresh(1) [OF dinv i b] by simp
    have apart: "filepath_Clean (To j) \<noteq> ?d" if "(j, e) \<in> set (transferred (events s))" for j e
      using in_flight_fresh(2) [OF dinv i b that] K [OF transferred_enqueued [OF dinv that]] d2
      by simp
    have nw: "?d \<notin> written s"
    proof
      assume "?d \<in> written s"
      then obtain a e where "(a, e) \<in> set (transferred (events s))"
        and "?d = filepath_Clean (To a)"
        by (auto simp add: written_def)
      with apart [of a e] show False by simp
    qed
    have new: "file_at (c_fs s') (filepath_Clean (To j)) = file_at fs0 (filepath_Clean (From j))"
      if mem: "(j, None) \<in> set (transferred (events s'))"
        and absent: "file_at fs0 (filepath_Clean (To j)) = None"
        and src: "filepath_Clean (From j) \<notin> written s'" for j
    proof (cases "(j, None) \<in> set (transferred (events s))")
      case True
      have "file_at (c_fs s') (filepath_Clean (To j)) = file_at (c_fs s) (filepath_Clean (To j))"
        using other [OF apart [OF True]] by (simp add: s')
      also have "\<dots> = file_at fs0 (filepath_Clean (From j))"
        using True absent src by (intro F2) (simp_all add: wr)
      finally show ?thesis .
    next
      case False
      then have j: "j = j2" and r: "r = None"
        using mem by (simp_all add: tr)
      have "file_at (c_fs s) ?d = None"
        using F1 [OF nw] absent j by simp
      then have "file_at fs' ?d = file_at (c_fs s) (filepath_Clean (From j2))"
        using r by (intro fresh)
      also have "\<dots> = file_at fs0 (filepath_Clean (From j2))"
        using src j by (intro F1) (simp add: wr)
      finally show ?thesis by (simp add: s' j)
    qed
    show ?thesis
      using K new by (simp add: en)
  qed
  show ?thesis
    unfolding fs_inv_def using G1 G3 G2 by (simp add: s')
qed

lemma fs_inv_worker_step:
  assumes dinv: "dedup_inv S0 s" and inv: "fs_inv fs0 s"
  shows "fs_inv fs0 (worker_step i s)"
proof (cases "i < length (workers s)")
  case False
  then show ?thesis using inv by (simp add: worker_step_def)
next
  case True
  note ws = worker_step_cases [OF True]
  show ?thesis
  proof (cases "workers s ! i")
    case Idle
    have "c_fs (worker_step i s) = c_fs s \<and> events (worker_step i s) = events s
          \<and> walk_to (worker_step i s) = walk_to s"
      using True Idle by (simp add: worker_step_def split: walk_state.splits)
    then show ?thesis
      using inv fs_inv_cong [of "worker_step i s" s fs0] by simp
  next
    case (Busy j)
    obtain r fs1 where cf: "copyFile (c_fs s) (From j) (To j) = (r, fs1)"
      by (cases "copyFile (c_fs s) (From j) (To j)")
    have "c_fs (worker_step i s) = fs1 \<and> events (worker_step i s) = events s @ [Transferred j r]
          \<and> walk_to (worker_step i s) = walk_to s"
      using ws(4) [OF Busy, of fs1] ws(5) [OF Busy, of _ fs1] cf by (cases r) simp_all
    then show ?thesis
      using fs_inv_transfer [OF dinv inv True Busy cf, of "worker_step i s"] by simp
  next
    case (Reporting err)
    have "c_fs (worker_step i s) = c_fs s \<and> events (worker_step i s) = events s
          \<and> walk_to (worker_step i s) = walk_to s"
      using True Reporting by (simp add: worker_step_def)
    then show ?thesis
      using inv fs_inv_cong [of "worker_step i s" s fs0] by simp
  next
    case Exited
    then show ?thesis
      using inv ws(8) by simp
  qed
qed

lemma fs_inv_step: "dedup_inv S0 s \<Longrightarrow> fs_inv fs0 s \<Longrightarrow> fs_inv fs0 (step a s)"
  by (cases a) (simp_all add: step_def fs_inv_walk_step fs_inv_copyFiles_step
      fs_inv_worker_step fs_inv_collectErrors_step)

lemma fs_inv_exec: "dedup_inv S0 s \<Longrightarrow> fs_inv fs0 s \<Longrightarrow> fs_inv fs0 (exec sched s)"
  by (induction sched arbitrary: s) (simp_all add: fs_inv_step dedup_inv_step)

lemma fs_inv_Copier_copy: "fs_inv fs (Copier_copy c fs from to)"
  by (simp add: fs_inv_def written_def Copier_copy_def)


section \<open>A \<open>Copier\<close> used twice\<close>

text \<open>
  A destination that is in the \<open>seen\<close> map when a directory copy begins is never
  transferred to: the regular file there, or its absence, stays as it is.
\<close>

lemma seen_destination_is_not_written:
  assumes q: "q \<in> (case seen c of None \<Rightarrow> {} | Some S \<Rightarrow> S)" and to: "to \<noteq> []"
  shows "file_at (c_fs (exec sched (Copier_copy c fs from to))) q = file_at fs q"
proof -
  let ?S0 = "case seen c of None \<Rightarrow> {} | Some S \<Rightarrow> S"
  let ?s = "exec sched (Copier_copy c fs from to)"
  have ded: "dedup_inv ?S0 ?s"
    by (rule dedup_inv_exec) (rule dedup_inv_Copier_copy)
  have fsi: "fs_inv fs ?s"
    by (rule fs_inv_exec [OF dedup_inv_Copier_copy fs_inv_Copier_copy])
  have wt: "walk_to ?s \<noteq> []"
  proof -
    have "walk_to (exec sched s) = walk_to s" for s
    proof (induction sched arbitrary: s)
      case Nil
      then show ?case by simp
    next
      case (Cons a sched)
      have "walk_to (step a s) = walk_to s"
        by (cases a)
           (auto simp add: step_def walk_step_walk_to copyFiles_step_def collectErrors_step_def
             worker_step_def Let_def
             split: pool_state.splits worker.splits walk_state.splits prod.splits option.splits)
      with Cons show ?case by simp
    qed
    then show ?thesis using to by (simp add: Copier_copy_def)
  qed
  have "q \<notin> written ?s"
  proof
    assume "q \<in> written ?s"
    then obtain j r where mem: "(j, r) \<in> set (transferred (events ?s))"
      and qj: "q = filepath_Clean (To j)"
      by (auto simp add: written_def)
    have en: "j \<in> set (enqueued (events ?s))"
      by (rule transferred_enqueued [OF ded mem])
    then have "filepath_Clean (To j) = To j"
      using fsi wt by (simp add: fs_inv_def)
    then have "To j \<in> ?S0"
      using q qj by simp
    moreover have "?S0 \<inter> To ` set (enqueued (events ?s)) = {}"
      using ded by (simp add: dedup_inv_def)
    ultimately show False
      using en by blast
  qed
  then show ?thesis
    using fsi by (simp add: fs_inv_def)
qed

text \<open>
  Claim C3 says that the \<open>seen\<close> set does not persist across \<open>Copy\<close> calls: each call
  gets a fresh set. \<open>Copy\<close> makes a new map only when \<open>c.seen\<close> is nil, and the map
  stays in the \<open>Copier\<close>. The first copy of \<open>from\<close> to \<open>to\<close> returns nil, has copied
  \<open>from/a\<close> and leaves \<open>to/a\<close> in the \<open>Copier\<close>'s map. A second \<open>Copy\<close> with that
  \<open>Copier\<close>, on the tree as it was before the first (no \<open>to\<close>), returns nil as
  well, and under no schedule is there a file \<open>to/a\<close> afterwards.
\<close>

theorem reused_Copier_skips_what_it_has_seen:
  "fst (Copy one_worker_run clobbering_copier source_fs ''from'' ''to'') = Some None
   \<and> fst (snd (Copy one_worker_run clobbering_copier source_fs ''from'' ''to''))
       = clobbering_copier\<lparr>seen := Some {''to/a''}\<rparr>
   \<and> lookup (snd (snd (Copy one_worker_run clobbering_copier source_fs ''from'' ''to''))) ''to/a''
       = Some (FileNode 420 ''hi'')
   \<and> fst (Copy one_worker_run (clobbering_copier\<lparr>seen := Some {''to/a''}\<rparr>) source_fs
            ''from'' ''to'') = Some None
   \<and> (\<forall>sched.
        file_at (snd (snd (Copy sched (clobbering_copier\<lparr>seen := Some {''to/a''}\<rparr>) source_fs
                             ''from'' ''to''))) ''to/a'' = None)"
proof -
  let ?c2 = "clobbering_copier\<lparr>seen := Some {}\<rparr>"
  let ?c3 = "clobbering_copier\<lparr>seen := Some {''to/a''}\<rparr>"
  have st: "Copy_start clobbering_copier source_fs ''from'' ''to''
            = DirectoryCopy ?c2 (Copier_copy ?c2 started_fs ''from'' ''to'')"
    by (simp add: eval_defs source_fs_def started_fs_def clobbering_copier_def)
  have run: "returned (exec one_worker_run (Copier_copy ?c2 started_fs ''from'' ''to'')) = Some None
             \<and> c_seen (exec one_worker_run (Copier_copy ?c2 started_fs ''from'' ''to''))
               = {''to/a''}
             \<and> c_fs (exec one_worker_run (Copier_copy ?c2 started_fs ''from'' ''to''))
               = copied_fs"
    by (simp add: eval_defs one_worker_run_def started_fs_def copied_fs_def
        clobbering_copier_def)
  have first: "Copy one_worker_run clobbering_copier source_fs ''from'' ''to''
               = (Some None, ?c3, copied_fs)"
    using run by (simp add: Copy_def st Let_def)
  have copied: "lookup copied_fs ''to/a'' = Some (FileNode 420 ''hi'')"
    by (simp add: lookup_def node_at_def is_root_def copied_fs_def filepath_Clean_def Let_def)
  have st3: "Copy_start ?c3 source_fs ''from'' ''to''
             = DirectoryCopy ?c3 (Copier_copy ?c3 started_fs ''from'' ''to'')"
    by (simp add: eval_defs source_fs_def started_fs_def clobbering_copier_def)
  have run3: "returned (exec one_worker_run (Copier_copy ?c3 started_fs ''from'' ''to''))
              = Some None"
    by (simp add: eval_defs one_worker_run_def started_fs_def clobbering_copier_def)
  have second: "fst (Copy one_worker_run ?c3 source_fs ''from'' ''to'') = Some None"
    using run3 by (simp add: Copy_def st3 Let_def)
  have absent: "file_at started_fs ''to/a'' = None"
    by (simp add: file_at_def node_at_def is_root_def started_fs_def)
  have never: "file_at (snd (snd (Copy sched ?c3 source_fs ''from'' ''to''))) ''to/a'' = None"
    for sched
  proof -
    have "file_at (c_fs (exec sched (Copier_copy ?c3 started_fs ''from'' ''to''))) ''to/a''
          = file_at started_fs ''to/a''"
      by (rule seen_destination_is_not_written) simp_all
    then show ?thesis
      using absent by (simp add: Copy_def st3 Let_def)
  qed
  show ?thesis
    using first copied second never by simp
qed






end
